theory Spec2Isabelle
  imports Main "HOL-Library.Word"
begin

unbundle bit_operations_syntax

section \<open>Machine types and helpers of the plotter\<close>

type_synonym byte = "8 word"
type_synonym uint16 = "16 word"
type_synonym uint32 = "32 word"
type_synonym uint64 = "64 word"
type_synonym size_t = "64 word"

text \<open>
  What stops a call is a value of the model: a null pointer that is
  dereferenced, an integer division by zero, and the fatal exit of the I/O
  layer (\<open>Fatal( "Failed to write to '%s.%u' ..." )\<close>), which names the bucket
  file and carries the error code.
\<close>

datatype fault = NullPointerDereference | DivisionByZero | Fatal nat int

datatype TableId = Table1 | Table2 | Table3 | Table4 | Table5 | Table6 | Table7

text \<open>
  Modelled from the spec: \<open>RoundUpToNextBoundary\<close> and \<open>RoundUpToNextBoundaryT\<close>
  (Util.h, not in the sources) round a value up to the next multiple of the
  boundary.
\<close>

definition RoundUpToNextBoundary :: "nat \<Rightarrow> nat \<Rightarrow> nat" where
  "RoundUpToNextBoundary v boundary = v + (boundary - v mod boundary) mod boundary"

text \<open>
  Modelled from the spec: the constants below are used by the sources and
  not defined there. \<open>kExtraBits\<close> is 6 (glossary); the stream cipher produces
  512-bit blocks, so \<open>kF1BlockSizeBits\<close> is 512 and \<open>kF1BlockSize\<close>, the size
  of one block in bytes (\<open>byte blocks[kF1BlockSize*2]\<close> holds two blocks in
  PlotValidator.cpp), is 64.
\<close>

definition kExtraBits :: nat where
  "kExtraBits = 6"

definition kF1BlockSizeBits :: nat where
  "kF1BlockSizeBits = 512"

definition kF1BlockSize :: nat where
  "kF1BlockSize = 64"

text \<open>
  Modelled from the spec: \<open>CDiv\<close> and \<open>CDivT\<close> (Util.h, not in the sources)
  are the ceiling division \<open>ceil(a / b)\<close>.
\<close>

definition CDiv :: "nat \<Rightarrow> nat \<Rightarrow> nat" where
  "CDiv a b = (a + b - 1) div b"

section \<open>FxGenBucketized.cpp: configuring the Fx jobs\<close>

text \<open>
  The part of \<open>DiskBufferQueue\<close> that the Fx generator reads: the block size
  that \<open>BlockSize()\<close> returns.
\<close>

record QueueInfo =
  BlockSize :: size_t

text \<open>
  \<open>Pairs\<close> holds two pointers (\<open>left\<close>, \<open>right\<close>); every pointer of a job is
  modelled as an offset, in elements, from the buffer the caller passed.
\<close>

record Pairs =
  left :: nat
  right :: nat

text \<open>
  \<open>FxBucketJob\<close>: the fields the configuration loops write per job. The
  buffers shared by all jobs (\<open>yIn\<close>, \<open>metaInA\<close>, \<open>metaInB\<close>, \<open>yOut\<close>,
  \<open>metaOutA\<close>, \<open>metaOutB\<close>, \<open>bucketIdOut\<close>, \<open>totalBucketCounts\<close>) are
  handed to every job unchanged, and \<open>counts\<close> is set to \<open>nullptr\<close>.
\<close>

record FxBucketJob =
  queue :: "QueueInfo option"
  bucketIdx :: uint32
  entryCount :: uint32
  fileBlockSize :: uint32
  table :: TableId
  pairs :: Pairs
  yTmp :: nat
  metaTmpA :: nat
  metaTmpB :: nat
  chunkSize :: uint32
  chunkCount :: uint32
  entriesPerChunk :: uint32
  trailingChunkEntries :: uint32

text \<open>
  What a generator call leaves behind: the jobs it configured, in job order,
  and how many of them it handed to \<open>jobs.Run\<close>.
\<close>

record FxRun =
  jobs :: "FxBucketJob list"
  jobsRun :: nat

text \<open>
  The job loop shared by both generators: job \<open>i\<close> gets \<open>entriesPerThread\<close>
  entries, one more while \<open>trailingEntries\<close> lasts, and the slice pointers
  advance by the job's entry count. \<open>metaTmpB\<close> only advances when the
  table has a second output meta (\<open>outMetaSizeB > 0\<close>).
\<close>

fun configure_jobs ::
  "nat \<Rightarrow> FxBucketJob \<Rightarrow> bool \<Rightarrow> uint32 \<Rightarrow> Pairs \<Rightarrow> nat \<Rightarrow> nat \<Rightarrow> nat \<Rightarrow> FxBucketJob list"
where
  "configure_jobs 0 proto hasMetaB trailing prs yT mA mB = []"
| "configure_jobs (Suc n) proto hasMetaB trailing prs yT mA mB =
     (let cnt = (if trailing \<noteq> 0 then entryCount proto + 1 else entryCount proto);
          trailing' = (if trailing \<noteq> 0 then trailing - 1 else trailing);
          job = proto\<lparr>entryCount := cnt, pairs := prs, yTmp := yT, metaTmpA := mA, metaTmpB := mB\<rparr>
      in job # configure_jobs n proto hasMetaB trailing'
           \<lparr>left = left prs + unat cnt, right = right prs + unat cnt\<rparr>
           (yT + unat cnt) (mA + unat cnt) (if hasMetaB then mB + unat cnt else mB))"

text \<open>
  \<open>while( chunkTrailingEntries >= chunkCount ) { chunkCount++;
  chunkTrailingEntries -= entriesPerChunk; }\<close> on 32-bit unsigned integers.
  Nothing bounds the number of rounds, so not returning is the value \<open>None\<close>.
\<close>

partial_function (option) count_chunks :: "uint32 \<Rightarrow> uint32 \<Rightarrow> uint32 \<Rightarrow> (uint32 \<times> uint32) option"
where
  "count_chunks perChunk chunks trailing =
     (if trailing \<ge> chunks
      then count_chunks perChunk (chunks + 1) (trailing - perChunk)
      else Some (chunks, trailing))"

text \<open>
  Modelled from the spec: \<open>BB_DP_BUCKET_COUNT\<close>, the bucket count of the Fx
  path, is not defined in the sources; the bucket tag is six bits wide
  (\<open>ASSERT( *ptr <= 0b111111u )\<close>), which gives 64 buckets.
\<close>

definition BB_DP_BUCKET_COUNT :: nat where
  "BB_DP_BUCKET_COUNT = 64"

text \<open>
  \<open>sizeof( uint32 ) + sizeof( outMetaSizeA ) + sizeof( outMetaSizeB )\<close>: both
  constants are of type \<open>size_t\<close>, eight bytes each.
\<close>

definition sizePerEntry :: size_t where
  "sizePerEntry = 4 + 8 + 8"

text \<open>
  \<open>GenFxBucketizedChunked\<close>. \<open>diskQueue\<close> is a pointer that may be null. The
  conditional \<open>diskQueue ? 1ull : diskQueue->BlockSize()\<close> yields 1 for a
  queue and calls \<open>BlockSize()\<close> through the pointer when it is null. The
  function configures its jobs and returns; it has no call of \<open>jobs.Run\<close>.
  The result is \<open>None\<close> when the chunk-counting loop does not return.
\<close>

definition GenFxBucketizedChunked ::
  "TableId \<Rightarrow> bool \<Rightarrow> QueueInfo option \<Rightarrow> uint32 \<Rightarrow> size_t \<Rightarrow> bool \<Rightarrow> uint32 \<Rightarrow> uint32
     \<Rightarrow> (fault + FxRun) option"
where
  "GenFxBucketizedChunked tableId hasMetaB diskQueue threadCount chunkSz directIO bucketIx entryCnt =
     (case diskQueue of
        None \<Rightarrow> Some (Inl NullPointerDereference)
      | Some q \<Rightarrow>
         (let fileBlockSz = (1 :: size_t);
              bucketBlockAlignSize = fileBlockSz * of_nat BB_DP_BUCKET_COUNT;
              usableChunkSize = (if directIO then chunkSz else chunkSz - bucketBlockAlignSize * 2);
              entriesPerChunk0 = (if chunkSz = 0 then entryCnt
                                  else (ucast (usableChunkSize div sizePerEntry) :: uint32))
          in if entryCnt = 0 \<or> threadCount = 0 then Some (Inl DivisionByZero)
             else
              (let chunkCount0 = entriesPerChunk0 div entryCnt;
                   chunkTrailing0 = entryCnt - entriesPerChunk0 * chunkCount0;
                   entriesPerThread = entriesPerChunk0 div threadCount
               in case count_chunks entriesPerChunk0 chunkCount0 chunkTrailing0 of
                    None \<Rightarrow> None
                  | Some (chunkCount1, chunkTrailing1) \<Rightarrow>
                     (let threadTrailingEntries = entriesPerChunk0 - entriesPerThread * threadCount;
                          proto = \<lparr> queue = diskQueue, bucketIdx = bucketIx,
                                    entryCount = entriesPerThread,
                                    fileBlockSize = ucast fileBlockSz, table = tableId,
                                    pairs = \<lparr>left = 0, right = 0\<rparr>,
                                    yTmp = 0, metaTmpA = 0, metaTmpB = 0,
                                    chunkSize = ucast usableChunkSize, chunkCount = chunkCount1,
                                    entriesPerChunk = entriesPerChunk0,
                                    trailingChunkEntries = chunkTrailing1 \<rparr>
                      in Some (Inr \<lparr> jobs = configure_jobs (unat threadCount) proto hasMetaB
                                             threadTrailingEntries \<lparr>left = 0, right = 0\<rparr> 0 0 0,
                                       jobsRun = 0 \<rparr>)))))"

text \<open>
  \<open>FxGenBucketized<table>::GenerateFxBucketizedInMemory\<close>: the chunked
  generator with a null queue, chunk size 0 and no direct I/O.
\<close>

definition GenerateFxBucketizedInMemory ::
  "TableId \<Rightarrow> bool \<Rightarrow> uint32 \<Rightarrow> uint32 \<Rightarrow> uint32 \<Rightarrow> (fault + FxRun) option"
where
  "GenerateFxBucketizedInMemory tableId hasMetaB threadCount bucketIx entryCnt =
     GenFxBucketizedChunked tableId hasMetaB None threadCount 0 False bucketIx entryCnt"

text \<open>
  \<open>GenFxBucketized\<close>, the unchunked sibling: the same job loop over
  \<open>entryCount / threadCount\<close>, followed by \<open>jobs.Run( threadCount )\<close>. The
  chunk fields are not set by this function.
\<close>

definition GenFxBucketized ::
  "TableId \<Rightarrow> bool \<Rightarrow> uint32 \<Rightarrow> size_t \<Rightarrow> uint32 \<Rightarrow> uint32 \<Rightarrow> fault + FxRun"
where
  "GenFxBucketized tableId hasMetaB threadCount fileBlockSz bucketIx entryCnt =
     (if threadCount = 0 then Inl DivisionByZero
      else
       (let entriesPerThread = entryCnt div threadCount;
            trailingEntries = entryCnt - entriesPerThread * threadCount;
            proto = \<lparr> queue = None, bucketIdx = bucketIx, entryCount = entriesPerThread,
                      fileBlockSize = ucast fileBlockSz, table = tableId,
                      pairs = \<lparr>left = 0, right = 0\<rparr>,
                      yTmp = 0, metaTmpA = 0, metaTmpB = 0,
                      chunkSize = 0, chunkCount = 0, entriesPerChunk = 0,
                      trailingChunkEntries = 0 \<rparr>
        in Inr \<lparr> jobs = configure_jobs (unat threadCount) proto hasMetaB trailingEntries
                          \<lparr>left = 0, right = 0\<rparr> 0 0 0,
                  jobsRun = unat threadCount \<rparr>))"

section \<open>FxGenBucketized.cpp: computing Fx\<close>

text \<open>
  Modelled from the spec: \<open>_K\<close> is not defined in the sources; \<open>k\<close> is 32 (the
  source's own comments give \<open>ySize = 38\<close> and \<open>yShift = 26 or 32\<close>, and its
  shifts by 26, 38, 6 and 58 are those of \<open>k = 32\<close>).
\<close>

definition plotK :: nat where
  "plotK = 32"

text \<open>
  Memory of the little-endian host: the eight bytes of a 64-bit word in
  address order, the bytes of an array of such words, the word that a list of
  bytes holds when it is read as a big-endian number, the 64-bit word that
  eight bytes in address order hold, and the element \<open>j\<close> of a \<open>uint64\<close>
  array that is read or written through a \<open>uint32*\<close>
  (\<open>reinterpret_cast<uint32*>( p )[j]\<close>).
\<close>

definition bytes_of_uint64 :: "uint64 \<Rightarrow> byte list" where
  "bytes_of_uint64 w = map (\<lambda>n. ucast (drop_bit (8 * n) w)) [0 ..< 8]"

definition bytes_of_words :: "uint64 list \<Rightarrow> byte list" where
  "bytes_of_words ws = concat (map bytes_of_uint64 ws)"

definition be_word :: "byte list \<Rightarrow> 'a::len word" where
  "be_word bs = fold (\<lambda>b acc. push_bit 8 acc OR ucast b) bs 0"

definition uint64_of_bytes :: "byte list \<Rightarrow> uint64" where
  "uint64_of_bytes bs = be_word (rev bs)"

text \<open>
  Modelled from the spec: \<open>Swap64\<close> (not in the sources) reverses the eight
  bytes of a 64-bit value: the bytes it has in memory, read big-endian.
\<close>

definition Swap64 :: "uint64 \<Rightarrow> uint64" where
  "Swap64 v = be_word (bytes_of_uint64 v)"

definition read_uint32 :: "uint64 list \<Rightarrow> nat \<Rightarrow> uint32" where
  "read_uint32 mem j = ucast (drop_bit (32 * (j mod 2)) (mem ! (j div 2)))"

definition write_uint32 :: "uint64 list \<Rightarrow> nat \<Rightarrow> uint32 \<Rightarrow> uint64 list" where
  "write_uint32 mem j v =
     mem[j div 2 := (if j mod 2 = 0
                     then (mem ! (j div 2) AND 0xFFFFFFFF00000000) OR ucast v
                     else (mem ! (j div 2) AND 0x00000000FFFFFFFF) OR push_bit 32 (ucast v))]"

text \<open>
  The constants that \<open>ComputeFxForTable\<close> derives from its template
  parameter. \<open>TableMetaIn\<close> and \<open>TableMetaOut\<close> are not in the sources, so the
  two multipliers \<open>metaKMultiplierIn\<close> and \<open>metaKMultiplierOut\<close> are
  parameters next to the table.
\<close>

definition yShift :: "nat \<Rightarrow> nat" where
  "yShift metaKMultiplierOut = 64 - (plotK + (if metaKMultiplierOut = 0 then 0 else kExtraBits))"

definition fx_bufferSize :: "nat \<Rightarrow> nat" where
  "fx_bufferSize metaKMultiplierIn = CDiv (plotK + kExtraBits + plotK * metaKMultiplierIn * 2) 8"

text \<open>
  The metadata of an entry as the loop extracts it: \<open>(l0, l1)\<close> at \<open>left\<close> or
  \<open>(r0, r1)\<close> at \<open>right\<close>. A part that the multiplier does not use is 0 here
  and is not read below.
\<close>

definition read_meta :: "nat \<Rightarrow> uint64 list \<Rightarrow> uint64 list \<Rightarrow> nat \<Rightarrow> uint64 \<times> uint64" where
  "read_meta metaKMultiplierIn metaInA metaInB at =
     (if metaKMultiplierIn = 1 then (ucast (read_uint32 metaInA at), 0)
      else if metaKMultiplierIn = 2 then (metaInA ! at, 0)
      else if metaKMultiplierIn = 3 then (metaInA ! at, ucast (read_uint32 metaInB at))
      else if metaKMultiplierIn = 4 then (metaInA ! at, metaInB ! at)
      else (0, 0))"

text \<open>
  The assignments to the array \<open>uint64 input[5]\<close>. The array is declared
  before the loop and not initialised; an element that an iteration does not
  assign keeps what it held.
\<close>

definition fx_input :: "nat \<Rightarrow> uint64 \<Rightarrow> uint64 \<times> uint64 \<Rightarrow> uint64 \<times> uint64 \<Rightarrow> uint64 list \<Rightarrow> uint64 list" where
  "fx_input metaKMultiplierIn y l r input =
     (let l0 = fst l; l1 = snd l; r0 = fst r; r1 = snd r
      in if metaKMultiplierIn = 1 then
           input[0 := Swap64 (push_bit 26 y OR drop_bit 6 l0),
                 1 := Swap64 (push_bit 58 l0 OR push_bit 26 r0)]
         else if metaKMultiplierIn = 2 then
           input[0 := Swap64 (push_bit 26 y OR drop_bit 38 l0),
                 1 := Swap64 (push_bit 26 l0 OR drop_bit 38 r0),
                 2 := Swap64 (push_bit 26 r0)]
         else if metaKMultiplierIn = 3 then
           input[0 := Swap64 (push_bit 26 y OR drop_bit 38 l0),
                 1 := Swap64 (push_bit 26 l0 OR drop_bit 6 l1),
                 2 := Swap64 (push_bit 58 l1 OR drop_bit 6 r0),
                 3 := Swap64 (push_bit 58 r0 OR push_bit 26 r1)]
         else if metaKMultiplierIn = 4 then
           input[0 := Swap64 (push_bit 26 y OR drop_bit 38 l0),
                 1 := Swap64 (push_bit 26 l0 OR drop_bit 38 l1),
                 2 := Swap64 (push_bit 26 l1 OR drop_bit 38 r0),
                 3 := Swap64 (push_bit 26 r0 OR drop_bit 38 r1),
                 4 := Swap64 (push_bit 26 r1)]
         else input)"

text \<open>
  The arrays the function reads and the arrays it writes. \<open>pairsLeft\<close> and
  \<open>pairsRight\<close> are the arrays that \<open>pairs.left\<close> and \<open>pairs.right\<close> point to
  (a 32-bit index and a 16-bit distance, as the specification gives them).
\<close>

record FxIn =
  pairsLeft :: "uint32 list"
  pairsRight :: "uint16 list"
  yIn :: "uint32 list"
  metaInA :: "uint64 list"
  metaInB :: "uint64 list"

record FxOut =
  yOut :: "uint32 list"
  bucketOut :: "byte list"
  metaOutA :: "uint64 list"
  metaOutB :: "uint64 list"

text \<open>
  The four 64-bit words \<open>output[0..3]\<close> that hold the 32 bytes of the hash of
  the first \<open>bufferSize\<close> bytes of \<open>input\<close>. Blake3 itself is a library that
  the sources do not hold: \<open>blake3\<close> is a parameter that maps a message to
  its hash.
\<close>

definition fx_hash :: "(byte list \<Rightarrow> byte list) \<Rightarrow> nat \<Rightarrow> uint64 list \<Rightarrow> uint64 list" where
  "fx_hash blake3 metaKMultiplierIn input =
     (let h = blake3 (take (fx_bufferSize metaKMultiplierIn) (bytes_of_words input))
      in map (\<lambda>j. uint64_of_bytes (take 8 (drop (8 * j) h))) [0 ..< 4])"

text \<open>
  The output metadata of iteration \<open>i\<close>, by the \<open>if constexpr\<close> chain of the
  source; \<open>ySize\<close> is \<open>k + kExtraBits\<close>.
\<close>

definition fx_meta_out ::
  "nat \<Rightarrow> nat \<Rightarrow> nat \<Rightarrow> uint64 \<Rightarrow> uint64 \<Rightarrow> uint64 list \<Rightarrow> FxOut \<Rightarrow> FxOut"
where
  "fx_meta_out metaKMultiplierIn metaKMultiplierOut i l0 r0 output out =
     (let h0 = Swap64 (output ! 0); h1 = Swap64 (output ! 1); h2 = Swap64 (output ! 2);
          ySize = plotK + kExtraBits
      in if metaKMultiplierOut = 2 \<and> metaKMultiplierIn = 1 then
           out\<lparr>metaOutA := (metaOutA out)[i := push_bit 32 l0 OR r0]\<rparr>
         else if metaKMultiplierOut = 2 \<and> metaKMultiplierIn = 3 then
           out\<lparr>metaOutA := (metaOutA out)[0 := push_bit ySize h0 OR drop_bit 26 h1]\<rparr>
         else if metaKMultiplierOut = 3 then
           out\<lparr>metaOutA := (metaOutA out)[i := push_bit ySize h0 OR drop_bit 26 h1],
                metaOutB := write_uint32 (metaOutB out) i
                              (ucast ((push_bit 6 h1 AND 0xFFFFFFC0) OR drop_bit 58 h2))\<rparr>
         else if metaKMultiplierOut = 4 \<and> metaKMultiplierIn = 2 then
           out\<lparr>metaOutA := (metaOutA out)[i := l0], metaOutB := (metaOutB out)[i := r0]\<rparr>
         else if metaKMultiplierOut = 4 \<and> metaKMultiplierIn \<noteq> 2 then
           out\<lparr>metaOutA := (metaOutA out)[i := push_bit ySize h0 OR drop_bit 26 h1],
                metaOutB := (metaOutB out)[i := push_bit 38 h1 OR drop_bit 26 h2]\<rparr>
         else out)"

text \<open>
  One iteration of the loop of \<open>ComputeFxForTable\<close>; the state is the
  \<open>input\<close> array and the output arrays.
\<close>

definition fx_step ::
  "TableId \<Rightarrow> nat \<Rightarrow> nat \<Rightarrow> (byte list \<Rightarrow> byte list) \<Rightarrow> uint64 \<Rightarrow> FxIn \<Rightarrow> nat
     \<Rightarrow> uint64 list \<times> FxOut \<Rightarrow> uint64 list \<times> FxOut"
where
  "fx_step tableId metaKMultiplierIn metaKMultiplierOut blake3 bucket fin i st =
     (let lft = pairsLeft fin ! i;
          rgt = lft + ucast (pairsRight fin ! i);
          y = bucket OR ucast (yIn fin ! unat lft);
          l = read_meta metaKMultiplierIn (metaInA fin) (metaInB fin) (unat lft);
          r = read_meta metaKMultiplierIn (metaInA fin) (metaInB fin) (unat rgt);
          input = fx_input metaKMultiplierIn y l r (fst st);
          output = fx_hash blake3 metaKMultiplierIn input;
          fx = drop_bit (yShift metaKMultiplierOut) (Swap64 (output ! 0));
          out = snd st;
          out1 = out\<lparr>yOut := (yOut out)[i := ucast fx]\<rparr>;
          out2 = (if tableId \<noteq> Table7
                  then out1\<lparr>bucketOut := (bucketOut out1)[i := ucast (drop_bit 32 fx)]\<rparr>
                  else out1\<lparr>bucketOut := (bucketOut out1)[i := ucast (drop_bit 26 fx AND 0b111111)]\<rparr>)
      in (input, fx_meta_out metaKMultiplierIn metaKMultiplierOut i (fst l) (fst r) output out2))"

definition ComputeFxForTable ::
  "TableId \<Rightarrow> nat \<Rightarrow> nat \<Rightarrow> (byte list \<Rightarrow> byte list) \<Rightarrow> uint64 \<Rightarrow> nat \<Rightarrow> FxIn
     \<Rightarrow> uint64 list \<Rightarrow> FxOut \<Rightarrow> FxOut"
where
  "ComputeFxForTable tableId metaKMultiplierIn metaKMultiplierOut blake3 bucket entryCnt fin input out =
     snd (fold (fx_step tableId metaKMultiplierIn metaKMultiplierOut blake3 bucket fin)
               [0 ..< entryCnt] (input, out))"








section \<open>FxGenBucketized.cpp: distributing entries into buckets\<close>

text \<open>
  The arrays of \<open>BB_DP_BUCKET_COUNT\<close> counters are lists of 32-bit words; the
  number of buckets is the parameter \<open>B\<close> of the functions below. A job's
  input is the list of its entries, each with its bucket byte: element \<open>i\<close>
  stands for \<open>bucketIndices[i]\<close> together with \<open>y[i]\<close>, \<open>metaA[i]\<close> and
  \<open>metaB[i]\<close>, which the scatter loop moves as one.

  The counting loop \<open>counts[*ptr]++\<close> over the job's bucket bytes.
\<close>

fun count_entries :: "byte list \<Rightarrow> uint32 list \<Rightarrow> uint32 list" where
  "count_entries [] counts = counts"
| "count_entries (b # bs) counts = count_entries bs (counts[unat b := counts ! unat b + 1])"

text \<open>
  The loops of \<open>CalculatePrefixSum\<close> over the bucket index:
  \<open>pfxSum[j] += tCounts[j]\<close>, \<open>pfxSum[i] -= tCounts[i]\<close>, the running sum
  \<open>pfxSum[i] += pfxSum[i-1]\<close> from index 1 on, and the two loops over the
  first \<open>B - 1\<close> buckets that pad a bucket's total to the file block size and
  take the padding off again. The padded total is computed in \<open>size_t\<close> and
  stored as a 32-bit word.
\<close>

definition add_counts :: "nat \<Rightarrow> uint32 list \<Rightarrow> uint32 list \<Rightarrow> uint32 list" where
  "add_counts B tCounts pfxSum = fold (\<lambda>j p. p[j := p ! j + tCounts ! j]) [0 ..< B] pfxSum"

definition sub_counts :: "nat \<Rightarrow> uint32 list \<Rightarrow> uint32 list \<Rightarrow> uint32 list" where
  "sub_counts B tCounts pfxSum = fold (\<lambda>i p. p[i := p ! i - tCounts ! i]) [0 ..< B] pfxSum"

definition running_sum :: "nat \<Rightarrow> uint32 list \<Rightarrow> uint32 list" where
  "running_sum B pfxSum = fold (\<lambda>i p. p[i := p ! i + p ! (i - 1)]) [1 ..< B] pfxSum"

definition padded_count :: "nat \<Rightarrow> uint32 \<Rightarrow> uint32" where
  "padded_count fileBlockSz cnt = of_nat (RoundUpToNextBoundary (unat cnt * 4) fileBlockSz div 4)"

definition align_counts :: "nat \<Rightarrow> nat \<Rightarrow> uint32 list \<times> uint32 list \<Rightarrow> uint32 list \<times> uint32 list" where
  "align_counts B fileBlockSz =
     fold (\<lambda>i (p, entryPadding).
             (p[i := padded_count fileBlockSz (p ! i)],
              entryPadding[i := padded_count fileBlockSz (p ! i) - p ! i]))
          [0 ..< B - 1]"

definition sub_padding :: "nat \<Rightarrow> uint32 list \<Rightarrow> uint32 list \<Rightarrow> uint32 list" where
  "sub_padding B entryPadding pfxSum =
     fold (\<lambda>i p. p[i := p ! i - entryPadding ! i]) [0 ..< B - 1] pfxSum"

text \<open>
  \<open>CalculatePrefixSum\<close> as job \<open>jobId\<close> runs it after the barrier, when
  \<open>allCounts ! t\<close> is the \<open>counts\<close> array that job \<open>t\<close> published. The result
  is the job's \<open>pfxSum\<close> and the caller's \<open>bucketCounts\<close>, which only the
  control thread (job 0) overwrites with the totals. \<open>entryPadding\<close> is not
  initialised in the source; only the indices below \<open>B - 1\<close> are read, each
  after it was written.
\<close>

definition CalculatePrefixSum ::
  "nat \<Rightarrow> nat \<Rightarrow> uint32 list list \<Rightarrow> nat \<Rightarrow> uint32 list \<Rightarrow> uint32 list \<times> uint32 list"
where
  "CalculatePrefixSum B jobId allCounts fileBlockSz bucketCounts =
     (let jobCount = length allCounts;
          totals = fold (\<lambda>i p. add_counts B (allCounts ! i) p) [0 ..< jobCount] (replicate B 0);
          bucketCounts' = (if jobId = 0 then totals else bucketCounts);
          aligned = (if fileBlockSz \<noteq> 0 then align_counts B fileBlockSz (totals, replicate B 0)
                     else (totals, replicate B 0));
          summed = running_sum B (fst aligned);
          mine = fold (\<lambda>t p. sub_counts B (allCounts ! t) p) [jobId + 1 ..< jobCount] summed;
          pfxSum = (if fileBlockSz \<noteq> 0 then sub_padding B (snd aligned) mine else mine)
      in (pfxSum, bucketCounts'))"

text \<open>
  The scatter loop: \<open>dstIdx = --pfxSum[bucketIndices[i]]\<close>, then the entry is
  stored at \<open>dstIdx\<close> of the output buffers. The result lists the stores in
  the order of the loop.
\<close>

fun scatter :: "(byte \<times> 'a) list \<Rightarrow> uint32 list \<Rightarrow> (nat \<times> 'a) list" where
  "scatter [] pfxSum = []"
| "scatter ((b, e) # es) pfxSum =
     (let dstIdx = pfxSum ! unat b - 1
      in (unat dstIdx, e) # scatter es (pfxSum[unat b := dstIdx]))"

text \<open>
  \<open>DistributeIntoBuckets\<close> as job \<open>jobId\<close> runs it, where \<open>inputs ! t\<close> is the
  input of job \<open>t\<close>: count, take the prefix sums, scatter.
\<close>

definition DistributeIntoBuckets ::
  "nat \<Rightarrow> nat \<Rightarrow> (byte \<times> 'a) list list \<Rightarrow> nat \<Rightarrow> uint32 list \<Rightarrow> (nat \<times> 'a) list \<times> uint32 list"
where
  "DistributeIntoBuckets B jobId inputs fileBlockSz outBucketCounts =
     (let allCounts = map (\<lambda>inp. count_entries (map fst inp) (replicate B 0)) inputs;
          res = CalculatePrefixSum B jobId allCounts fileBlockSz outBucketCounts
      in (scatter (inputs ! jobId) (fst res), snd res))"

text \<open>The stores of a job applied to an output buffer.\<close>

definition apply_stores :: "(nat \<times> 'a) list \<Rightarrow> 'a list \<Rightarrow> 'a list" where
  "apply_stores stores out = fold (\<lambda>(dstIdx, e) buf. buf[dstIdx := e]) stores out"

text \<open>
  For the statements: the number of entries of a job's input that carry
  bucket \<open>b\<close>, the total of bucket \<open>b\<close> over all jobs, that total padded to
  the file block size as \<open>CalculatePrefixSum\<close> pads it (every bucket but the
  last, and only for a block size other than 0), and the index at which the
  region of bucket \<open>b\<close> starts.
\<close>

definition bucket_count :: "(byte \<times> 'a) list \<Rightarrow> nat \<Rightarrow> nat" where
  "bucket_count inp b = length (filter (\<lambda>e. unat (fst e) = b) inp)"

definition bucket_total :: "(byte \<times> 'a) list list \<Rightarrow> nat \<Rightarrow> nat" where
  "bucket_total inputs b = (\<Sum>inp\<leftarrow>inputs. bucket_count inp b)"

definition bucket_padded :: "nat \<Rightarrow> nat \<Rightarrow> (byte \<times> 'a) list list \<Rightarrow> nat \<Rightarrow> nat" where
  "bucket_padded B fileBlockSz inputs b =
     (if fileBlockSz \<noteq> 0 \<and> b < B - 1
      then RoundUpToNextBoundary (bucket_total inputs b * 4) fileBlockSz div 4
      else bucket_total inputs b)"

definition bucket_start :: "nat \<Rightarrow> nat \<Rightarrow> (byte \<times> 'a) list list \<Rightarrow> nat \<Rightarrow> nat" where
  "bucket_start B fileBlockSz inputs b = (\<Sum>j<b. bucket_padded B fileBlockSz inputs j)"

text \<open>
  The index at which the write window of job \<open>t\<close> starts within bucket \<open>b\<close>:
  the start of the bucket's region plus the entries of the jobs before \<open>t\<close>;
  and the destination indices that a job's stores give to its entries of
  bucket \<open>b\<close>.
\<close>

definition window_start :: "nat \<Rightarrow> nat \<Rightarrow> (byte \<times> 'a) list list \<Rightarrow> nat \<Rightarrow> nat \<Rightarrow> nat" where
  "window_start B fileBlockSz inputs t b =
     bucket_start B fileBlockSz inputs b + (\<Sum>inp\<leftarrow>take t inputs. bucket_count inp b)"

definition bucket_dsts :: "(byte \<times> 'a) list \<Rightarrow> (nat \<times> 'a) list \<Rightarrow> nat \<Rightarrow> nat set" where
  "bucket_dsts inp stores b =
     set (map (\<lambda>(s, e). fst s) (filter (\<lambda>(s, e). unat (fst e) = b) (zip stores inp)))"

section \<open>DiskBufferQueue.cpp: writing buckets\<close>

datatype FileId = Y0 | Y1 | META_A_0 | META_A_1 | META_B_0 | META_B_1 | X

text \<open>
  Modelled from the spec: \<open>FileStream\<close> is not in the sources. The dispatcher
  is the only thread that touches the files, so the files of all sets are one
  state: \<open>log\<close> lists the accepted writes in the order of the calls, each with
  its file set, its bucket and the bytes taken, and \<open>outcomes\<close> lists what the
  coming \<open>Write\<close> calls return (a value below 1 is a failure, a larger one
  the number of bytes taken, at most the number offered; when the list is used
  up, every call takes all it is offered).
\<close>

record Disk =
  log :: "(FileId \<times> nat \<times> byte list) list"
  outcomes :: "int list"

definition FileStream_Write :: "Disk \<Rightarrow> FileId \<Rightarrow> nat \<Rightarrow> byte list \<Rightarrow> Disk \<times> int" where
  "FileStream_Write d fileId bucket buf =
     (case outcomes d of
        [] \<Rightarrow> (d\<lparr>log := log d @ [(fileId, bucket, buf)]\<rparr>, int (length buf))
      | r # rs \<Rightarrow>
          if r < 1 then (d\<lparr>outcomes := rs\<rparr>, r)
          else (d\<lparr>log := log d @ [(fileId, bucket, take (nat r) buf)], outcomes := rs\<rparr>,
                int (min (nat r) (length buf))))"

text \<open>
  The queue's own fields that the write commands read. \<open>fileCount\<close> is
  \<open>_files[id].files.length\<close>.
\<close>

record DiskBufferQueue =
  blockSize :: nat
  useDirectIO :: bool
  fileCount :: "FileId \<Rightarrow> nat"

text \<open>
  The loop \<open>while( size ) { sizeWritten = file.Write( buffer, size ); ... }\<close> of
  \<open>WriteToFile\<close>, the same in both of its branches: a result below 1 is
  fatal, any other moves \<open>buffer\<close> on and shrinks \<open>size\<close>. Memory is a
  function from addresses to bytes and \<open>buffer\<close> is an address.
\<close>

function write_loop ::
  "Disk \<Rightarrow> FileId \<Rightarrow> nat \<Rightarrow> (nat \<Rightarrow> byte) \<Rightarrow> nat \<Rightarrow> nat \<Rightarrow> fault + (Disk \<times> nat)"
where
  "write_loop d fileId bucket mem buffer sz =
     (if sz = 0 then Inr (d, buffer)
      else
       (let res = FileStream_Write d fileId bucket (map mem [buffer ..< buffer + sz])
        in if snd res < 1 then Inl (Fatal bucket (snd res))
           else write_loop (fst res) fileId bucket mem (buffer + nat (snd res)) (sz - nat (snd res))))"
  by pat_completeness auto
termination
  by (relation "measure (\<lambda>(d, fileId, bucket, mem, buffer, sz). sz)") auto

text \<open>
  \<open>WriteToFile\<close>. With direct I/O the whole blocks are written from the
  buffer; a remainder is copied to the zeroed block buffer and one block is
  written from there, by a single \<open>Write\<close> whose result is only tested for
  failure.
\<close>

definition WriteToFile ::
  "DiskBufferQueue \<Rightarrow> Disk \<Rightarrow> FileId \<Rightarrow> nat \<Rightarrow> (nat \<Rightarrow> byte) \<Rightarrow> nat \<Rightarrow> nat \<Rightarrow> fault + Disk"
where
  "WriteToFile q d fileId bucket mem buffer sz =
     (if \<not> useDirectIO q then
        (case write_loop d fileId bucket mem buffer sz of
           Inl e \<Rightarrow> Inl e
         | Inr (d', buffer') \<Rightarrow> Inr d')
      else if blockSize q = 0 then Inl DivisionByZero
      else
        (let sizeToWrite = sz div blockSize q * blockSize q;
             remainder = sz - sizeToWrite
         in case write_loop d fileId bucket mem buffer sizeToWrite of
              Inl e \<Rightarrow> Inl e
            | Inr (d', buffer') \<Rightarrow>
                if remainder \<noteq> 0 then
                  (let blockBuffer = map mem [buffer' ..< buffer' + remainder]
                                     @ replicate (blockSize q - remainder) 0;
                       res = FileStream_Write d' fileId bucket blockBuffer
                   in if snd res < 1 then Inl (Fatal bucket (snd res)) else Inr (fst res))
                else Inr d'))"

text \<open>
  The bucket loop of \<open>CmdWriteBuckets\<close> from bucket \<open>i\<close> on: the write size
  and the step of the source pointer for each bucket, as the command computes
  them from \<open>sizes[i]\<close>.
\<close>

definition bucket_writeSize :: "DiskBufferQueue \<Rightarrow> uint32 \<Rightarrow> nat" where
  "bucket_writeSize q bufferSize =
     (if \<not> useDirectIO q then unat bufferSize
      else unat bufferSize div blockSize q * blockSize q)"

definition bucket_bufferOffset :: "DiskBufferQueue \<Rightarrow> uint32 \<Rightarrow> nat" where
  "bucket_bufferOffset q bufferSize =
     (if \<not> useDirectIO q then unat bufferSize
      else RoundUpToNextBoundary (unat bufferSize) (blockSize q))"

fun write_buckets ::
  "DiskBufferQueue \<Rightarrow> FileId \<Rightarrow> (nat \<Rightarrow> byte) \<Rightarrow> uint32 list \<Rightarrow> nat list \<Rightarrow> Disk \<Rightarrow> nat
     \<Rightarrow> fault + (Disk \<times> nat)"
where
  "write_buckets q fileId mem sizes [] d buffer = Inr (d, buffer)"
| "write_buckets q fileId mem sizes (i # is) d buffer =
     (if useDirectIO q \<and> blockSize q = 0 then Inl DivisionByZero
      else
       case WriteToFile q d fileId i mem buffer (bucket_writeSize q (sizes ! i)) of
         Inl e \<Rightarrow> Inl e
       | Inr d' \<Rightarrow>
           write_buckets q fileId mem sizes is d' (buffer + bucket_bufferOffset q (sizes ! i)))"

definition CmdWriteBuckets ::
  "DiskBufferQueue \<Rightarrow> FileId \<Rightarrow> (nat \<Rightarrow> byte) \<Rightarrow> nat \<Rightarrow> uint32 list \<Rightarrow> Disk
     \<Rightarrow> fault + (Disk \<times> nat)"
where
  "CmdWriteBuckets q fileId mem buffers sizes d =
     write_buckets q fileId mem sizes [0 ..< fileCount q fileId] d buffers"

section \<open>DiskF1.h: the F1 generator\<close>

text \<open>
  Modelled from the spec: \<open>Swap32\<close> (not in the sources) reverses the four
  bytes of a 32-bit value.
\<close>

definition Swap32 :: "uint32 \<Rightarrow> uint32" where
  "Swap32 v = push_bit 24 v OR (push_bit 8 v AND 0x00FF0000)
              OR (drop_bit 8 v AND 0x0000FF00) OR drop_bit 24 v"

text \<open>
  Signed 64-bit division of C++ truncates towards zero; a conversion of a
  signed value to \<open>uint64\<close> wraps modulo \<open>2^64\<close>. Signed values are
  integers: a signed overflow is undefined in C++ and the theorems exclude it.
\<close>

definition cdiv_int :: "int \<Rightarrow> int \<Rightarrow> int" where
  "cdiv_int a b = sgn a * sgn b * (\<bar>a\<bar> div \<bar>b\<bar>)"

definition to_uint64 :: "int \<Rightarrow> nat" where
  "to_uint64 v = nat (v mod 2 ^ 64)"

definition entriesPerBucket :: "nat \<Rightarrow> nat \<Rightarrow> int" where
  "entriesPerBucket k numBuckets = int (CDiv (2 ^ k) numBuckets)"

definition entriesPerBlock :: "nat \<Rightarrow> int" where
  "entriesPerBlock k = int (kF1BlockSizeBits div k)"

text \<open>
  One round of the bucket loop of \<open>GenF1\<close> as worker \<open>id\<close> of \<open>threadCount\<close>
  sees it: the entry count of the bucket, the worker's share, the first \<open>x\<close> of
  the worker, and the cipher block and block count it asks the cipher for.
\<close>

record F1Round =
  bucketEntryCount :: int
  entriesPerThread :: int
  firstX :: nat
  chachaBlock :: nat
  blockCount :: nat

definition GenF1_round :: "nat \<Rightarrow> nat \<Rightarrow> nat \<Rightarrow> nat \<Rightarrow> int \<Rightarrow> nat \<Rightarrow> F1Round" where
  "GenF1_round k numBuckets threadCount jobId tableEntryCount nextX =
     (let bucketEntries = min (entriesPerBucket k numBuckets) tableEntryCount;
          perThread = cdiv_int bucketEntries (int threadCount);
          x = (nextX + to_uint64 perThread * jobId) mod 2 ^ 64;
          perThread' = (if jobId = threadCount - 1
                        then bucketEntries - perThread * (int threadCount - 1)
                        else perThread)
      in \<lparr> bucketEntryCount = bucketEntries,
           entriesPerThread = perThread',
           firstX = x,
           chachaBlock = x div kF1BlockSize,
           blockCount = to_uint64 (cdiv_int (perThread' + entriesPerBlock k - 1) (entriesPerBlock k)) \<rparr>)"

text \<open>
  The bucket loop: \<open>tableEntryCount\<close> and \<open>nextX\<close> move on by the bucket's
  entry count after each of the \<open>_numBuckets\<close> rounds.
\<close>

fun GenF1_rounds :: "nat \<Rightarrow> nat \<Rightarrow> nat \<Rightarrow> nat \<Rightarrow> nat \<Rightarrow> int \<Rightarrow> nat \<Rightarrow> F1Round list" where
  "GenF1_rounds k numBuckets threadCount jobId 0 tableEntryCount nextX = []"
| "GenF1_rounds k numBuckets threadCount jobId (Suc n) tableEntryCount nextX =
     (let r = GenF1_round k numBuckets threadCount jobId tableEntryCount nextX
      in r # GenF1_rounds k numBuckets threadCount jobId n
               (tableEntryCount - bucketEntryCount r)
               ((nextX + to_uint64 (bucketEntryCount r)) mod 2 ^ 64))"

definition GenF1 :: "nat \<Rightarrow> nat \<Rightarrow> nat \<Rightarrow> nat \<Rightarrow> F1Round list" where
  "GenF1 k numBuckets threadCount jobId =
     GenF1_rounds k numBuckets threadCount jobId numBuckets (2 ^ k) 0"

text \<open>
  The entry written for \<open>xi = x + i\<close> from the worker's \<open>i\<close>-th 32-bit chunk
  \<open>blk = blocks[i]\<close>. \<open>yBits\<close> is \<open>Info::YBitSize\<close>, a constant of
  \<open>DiskPlotInfo\<close> that the sources do not define; it is a parameter here.
  \<open>kMinusKExtraBits\<close> is \<open>_k - kExtraBits\<close> in \<open>uint32\<close>, which wraps when \<open>_k\<close> is
  below \<open>kExtraBits\<close>. A shift of a \<open>uint64\<close> by 64 or more is undefined in
  C++ (here it gives 0); the theorems about \<open>y\<close> assume \<open>kExtraBits \<le> k\<close> and
  \<open>yBits + k \<le> 64\<close>, under which every shift is below 64.
\<close>

definition kMinusKExtraBits :: "nat \<Rightarrow> nat" where
  "kMinusKExtraBits k = unat (of_nat k - of_nat kExtraBits :: uint32)"

definition GenF1_y :: "nat \<Rightarrow> nat \<Rightarrow> uint32 \<Rightarrow> uint64 \<Rightarrow> uint64" where
  "GenF1_y k yBits blk xi =
     (let y = (ucast (Swap32 blk) :: uint64);
          yMask = push_bit yBits 1 - 1
      in (push_bit kExtraBits y OR drop_bit (kMinusKExtraBits k) xi) AND yMask)"

definition GenF1_entry :: "nat \<Rightarrow> nat \<Rightarrow> uint32 \<Rightarrow> uint64 \<Rightarrow> uint64" where
  "GenF1_entry k yBits blk xi = push_bit yBits xi OR GenF1_y k yBits blk xi"

text \<open>
  The 32-bit chunks a worker reads in one round. \<open>chacha8_get_keystream\<close>
  fills the worker's buffer with \<open>blockCount\<close> blocks of 16 chunks, starting
  at block \<open>chachaBlock\<close>; \<open>keystream j\<close> is chunk \<open>j\<close> of the cipher's
  stream and \<open>stale\<close> is what the buffer held before.
\<close>

definition F1_blocks :: "(nat \<Rightarrow> uint32) \<Rightarrow> (nat \<Rightarrow> uint32) \<Rightarrow> F1Round \<Rightarrow> nat \<Rightarrow> uint32" where
  "F1_blocks keystream stale r i =
     (if i < blockCount r * (kF1BlockSize div 4)
      then keystream (chachaBlock r * (kF1BlockSize div 4) + i)
      else stale i)"

text \<open>
  The entries one worker produces in one round, in the order of the loop
  \<open>for( int64 i = 0; i < entriesPerThread; i++ )\<close>: the pair of \<open>xi\<close> and the
  packed entry. (Their places in the output come from
  \<open>AnonPrefixSumJob::CalculatePrefixSum\<close>, which the sources do not hold.)
\<close>

definition F1_round_entries ::
  "nat \<Rightarrow> nat \<Rightarrow> (nat \<Rightarrow> uint32) \<Rightarrow> (nat \<Rightarrow> uint32) \<Rightarrow> F1Round \<Rightarrow> (nat \<times> uint64) list"
where
  "F1_round_entries k yBits keystream stale r =
     map (\<lambda>i. let xi = (firstX r + i) mod 2 ^ 64
              in (xi, GenF1_entry k yBits (F1_blocks keystream stale r i) (of_nat xi)))
         [0 ..< nat (entriesPerThread r)]"

text \<open>
  Modelled from the spec: \<open>BitWriter\<close> (\<open>writer.Write( entry, entrySizeBits )\<close>)
  is not in the sources. The record it emits for an entry is the low
  \<open>entrySizeBits\<close> bits of the 64-bit value it is given. The bit packing of
  the bucket files is little-endian at the byte level, so a layout
  \<open>(a : m) || (b : n)\<close> is read from the least significant end of the record:
  the field \<open>a\<close> is its low \<open>m\<close> bits and \<open>b\<close> is the \<open>n\<close> bits above them.
\<close>

definition BitWriter_record :: "nat \<Rightarrow> uint64 \<Rightarrow> uint64" where
  "BitWriter_record entrySizeBits entry = take_bit entrySizeBits entry"

definition record_fields :: "nat \<Rightarrow> nat \<Rightarrow> uint64 \<Rightarrow> uint64 \<times> uint64" where
  "record_fields m n rec = (take_bit m rec, take_bit n (drop_bit m rec))"

text \<open>
  The \<open>y\<close> of the specification, following its words:
  \<open>(rawY << kExtraBits) | (x >> (k - kExtraBits))\<close> truncated to
  \<open>k + kExtraBits\<close> bits, where \<open>rawY\<close> is the byte-swapped 32-bit chunk.
\<close>

definition spec_F1_y :: "nat \<Rightarrow> uint32 \<Rightarrow> uint64 \<Rightarrow> uint64" where
  "spec_F1_y k blk xi =
     take_bit (k + kExtraBits)
       (push_bit kExtraBits (ucast (Swap32 blk)) OR drop_bit (k - kExtraBits) xi)"

section \<open>F1: entry counts\<close>

lemma CDiv_mult_ge: "0 < b \<Longrightarrow> a \<le> b * CDiv a b"
proof -
  assume b: "0 < b"
  have "a + b - 1 = (a + b - 1) div b * b + (a + b - 1) mod b" by simp
  moreover have "(a + b - 1) mod b \<le> b - 1" using b
    by (metis Suc_pred' less_Suc_eq_le mod_less_divisor)
  ultimately have "a + b - 1 \<le> (a + b - 1) div b * b + (b - 1)" by linarith
  then show ?thesis using b by (simp add: CDiv_def mult.commute)
qed

lemma cdiv_int_nonneg: "0 \<le> a \<Longrightarrow> 0 < b \<Longrightarrow> cdiv_int a b = a div b"
  by (cases "a = 0") (simp_all add: cdiv_int_def)

lemma GenF1_round_counts:
  "bucketEntryCount (GenF1_round k B T jobId tec nx) = min (entriesPerBucket k B) tec"
  "entriesPerThread (GenF1_round k B T jobId tec nx) =
     (let bec = min (entriesPerBucket k B) tec; q = cdiv_int bec (int T)
      in if jobId = T - 1 then bec - q * (int T - 1) else q)"
  by (simp_all add: GenF1_round_def Let_def)

lemma GenF1_rounds_nth:
  "b < n \<Longrightarrow> 0 \<le> tec \<Longrightarrow>
   \<exists>nx'. GenF1_rounds k B T jobId n tec nx ! b
          = GenF1_round k B T jobId (max (tec - int b * entriesPerBucket k B) 0) nx'"
proof (induction n arbitrary: b tec nx)
  case 0
  then show ?case by simp
next
  case (Suc n)
  have E: "0 \<le> entriesPerBucket k B" by (simp add: entriesPerBucket_def)
  show ?case
  proof (cases b)
    case 0
    then show ?thesis using Suc.prems by (auto simp: Let_def)
  next
    case (Suc b')
    let ?tec' = "tec - bucketEntryCount (GenF1_round k B T jobId tec nx)"
    have t': "?tec' = max (tec - entriesPerBucket k B) 0"
      using Suc.prems E by (simp add: GenF1_round_counts)
    then have "0 \<le> ?tec'" by simp
    from Suc.IH[OF _ this, of b'] Suc Suc.prems obtain nx' where
      "GenF1_rounds k B T jobId n ?tec' ((nx + to_uint64 (bucketEntryCount (GenF1_round k B T jobId tec nx))) mod 2 ^ 64) ! b'
        = GenF1_round k B T jobId (max (?tec' - int b' * entriesPerBucket k B) 0) nx'"
      by auto
    moreover have "max (?tec' - int b' * entriesPerBucket k B) 0
                 = max (tec - int b * entriesPerBucket k B) 0"
    proof -
      define P where "P = int b' * entriesPerBucket k B"
      have P: "0 \<le> P" using E by (simp add: P_def)
      have "int b * entriesPerBucket k B = entriesPerBucket k B + P"
        by (simp add: P_def Suc algebra_simps)
      then show ?thesis unfolding t' P_def[symmetric] using E P by (auto simp: max_def)
    qed
    ultimately show ?thesis using Suc by (auto simp: Let_def)
  qed
qed

lemma GenF1_rounds_length:
  "length (GenF1_rounds k B T jobId n tec nx) = n"
  by (induction n arbitrary: tec nx) (simp_all add: Let_def)

lemma sum_min_max:
  fixes t E :: int
  assumes "0 \<le> t" "0 \<le> E"
  shows "(\<Sum>b<n. min E (max (t - int b * E) 0)) = min t (int n * E)"
proof (induction n)
  case 0
  then show ?case using assms by simp
next
  case (Suc n)
  show ?case
  proof (cases "t \<le> int n * E")
    case True
    then show ?thesis using Suc assms by (simp add: algebra_simps min_def max_def)
  next
    case False
    then show ?thesis using Suc assms by (auto simp add: algebra_simps min_def max_def)
  qed
qed

lemma thread_shares_sum:
  fixes bec :: int
  assumes "0 < T"
  shows "(\<Sum>jobId<T. if jobId = T - 1 then bec - q * (int T - 1) else q) = bec"
proof -
  obtain T' where T: "T = Suc T'" using assms by (cases T) auto
  have "(\<Sum>jobId<T'. if jobId = T' then bec - q * int T' else q) = (\<Sum>jobId<T'. q)"
    by (rule sum.cong) auto
  then show ?thesis unfolding T by (simp add: algebra_simps)
qed


lemma GenF1_nth_counts:
  assumes "b < B"
  shows "bucketEntryCount (GenF1 k B T jobId ! b)
           = min (entriesPerBucket k B) (max (2 ^ k - int b * entriesPerBucket k B) 0)"
    and "entriesPerThread (GenF1 k B T jobId ! b) =
          (let bec = min (entriesPerBucket k B) (max (2 ^ k - int b * entriesPerBucket k B) 0);
               q = cdiv_int bec (int T)
           in if jobId = T - 1 then bec - q * (int T - 1) else q)"
proof -
  have "(0::int) \<le> 2 ^ k" by simp
  from GenF1_rounds_nth[OF assms this, of k B T jobId 0] obtain nx' where
    "GenF1 k B T jobId ! b
       = GenF1_round k B T jobId (max (2 ^ k - int b * entriesPerBucket k B) 0) nx'"
    unfolding GenF1_def by auto
  then show
    "bucketEntryCount (GenF1 k B T jobId ! b)
           = min (entriesPerBucket k B) (max (2 ^ k - int b * entriesPerBucket k B) 0)"
    "entriesPerThread (GenF1 k B T jobId ! b) =
          (let bec = min (entriesPerBucket k B) (max (2 ^ k - int b * entriesPerBucket k B) 0);
               q = cdiv_int bec (int T)
           in if jobId = T - 1 then bec - q * (int T - 1) else q)"
    by (simp_all only: GenF1_round_counts)
qed

lemma GenF1_threads_sum:
  assumes "b < B" "0 < T"
  shows "(\<Sum>jobId<T. entriesPerThread (GenF1 k B T jobId ! b))
           = min (entriesPerBucket k B) (max (2 ^ k - int b * entriesPerBucket k B) 0)"
  using thread_shares_sum[OF assms(2)] by (simp add: GenF1_nth_counts(2)[OF assms(1)] Let_def)

lemma GenF1_share_nonneg:
  assumes "b < B" "0 < T"
  shows "0 \<le> entriesPerThread (GenF1 k B T jobId ! b)"
proof -
  define bec where "bec = min (entriesPerBucket k B) (max (2 ^ k - int b * entriesPerBucket k B) 0)"
  have bec: "0 \<le> bec" by (simp add: bec_def entriesPerBucket_def)
  have T: "0 < int T" using assms by simp
  have q: "cdiv_int bec (int T) = bec div int T" using bec T by (rule cdiv_int_nonneg)
  define d where "d = bec div int T"
  have d: "0 \<le> d" using bec T by (simp add: d_def pos_imp_zdiv_nonneg_iff)
  have "d * int T + bec mod int T = bec" by (simp add: d_def)
  moreover have "0 \<le> bec mod int T" using T by simp
  ultimately have "d * int T \<le> bec" by linarith
  moreover have "d * (int T - 1) = d * int T - d" by (simp add: algebra_simps)
  ultimately have "d * (int T - 1) \<le> bec" using d by linarith
  moreover note d
  ultimately show ?thesis
    by (simp add: GenF1_nth_counts(2)[OF assms(1)] Let_def bec_def[symmetric] q d_def[symmetric])
qed


lemma F1_entries_sum:
  assumes "b < B" "0 < T"
  shows "int (\<Sum>jobId<T. length (F1_round_entries k yBits ks st (GenF1 k B T jobId ! b)))
           = min (entriesPerBucket k B) (max (2 ^ k - int b * entriesPerBucket k B) 0)"
proof -
  have "int (\<Sum>jobId<T. length (F1_round_entries k yBits ks st (GenF1 k B T jobId ! b)))
          = (\<Sum>jobId<T. entriesPerThread (GenF1 k B T jobId ! b))"
    using GenF1_share_nonneg[OF assms] by (simp add: F1_round_entries_def)
  then show ?thesis by (simp only: GenF1_threads_sum[OF assms])
qed

text \<open>
  C5: a full run of \<open>GenF1\<close> with \<open>T\<close> workers over \<open>B\<close> buckets, for
  \<open>k \<le> 62\<close> (where no 64-bit value overflows): every worker runs \<open>B\<close>
  rounds; the workers together produce \<open>min(ceil(2^k / B), remaining)\<close> entries
  in round \<open>b\<close>, where \<open>remaining\<close> is \<open>2^k\<close> minus the entries of the earlier
  rounds; and the entries of all rounds add up to \<open>2^k\<close>.
\<close>

theorem GenF1_produces_table_entries:
  assumes "0 < T" and "0 < B" and "k \<le> 62" and "B < 2 ^ 32" and "T < 2 ^ 32"
  shows "(\<forall>jobId<T. length (GenF1 k B T jobId) = B)
       \<and> (\<forall>b<B. int (\<Sum>jobId<T. length (F1_round_entries k yBits ks st (GenF1 k B T jobId ! b)))
                   = min (int (CDiv (2 ^ k) B))
                         (2 ^ k - int (\<Sum>b'<b. \<Sum>jobId<T.
                             length (F1_round_entries k yBits ks st (GenF1 k B T jobId ! b')))))
       \<and> (\<Sum>b<B. \<Sum>jobId<T. length (F1_round_entries k yBits ks st (GenF1 k B T jobId ! b))) = 2 ^ k"
proof -
  let ?E = "entriesPerBucket k B"
  let ?n = "\<lambda>b. \<Sum>jobId<T. length (F1_round_entries k yBits ks st (GenF1 k B T jobId ! b))"
  have E: "0 \<le> ?E" by (simp add: entriesPerBucket_def)
  have per: "int (?n b) = min ?E (max (2 ^ k - int b * ?E) 0)" if "b < B" for b
    using F1_entries_sum[OF that assms(1)] .
  have upto: "int (\<Sum>b'<b. ?n b') = min (2 ^ k) (int b * ?E)" if "b \<le> B" for b
  proof -
    have "int (\<Sum>b'<b. ?n b') = (\<Sum>b'<b. int (?n b'))" by simp
    also have "\<dots> = (\<Sum>b'<b. min ?E (max (2 ^ k - int b' * ?E) 0))"
      using that by (intro sum.cong refl per) simp
    also have "\<dots> = min (2 ^ k) (int b * ?E)" using sum_min_max[OF _ E, of "2 ^ k" b] by simp
    finally show ?thesis .
  qed
  have len: "length (GenF1 k B T jobId) = B" for jobId
    by (simp add: GenF1_def GenF1_rounds_length)
  have "int (?n b) = min (int (CDiv (2 ^ k) B)) (2 ^ k - int (\<Sum>b'<b. ?n b'))" if "b < B" for b
  proof -
    have "b \<le> B" using that by simp
    from upto[OF this] have "2 ^ k - int (\<Sum>b'<b. ?n b') = max (2 ^ k - int b * ?E) 0"
      by (simp only: min_def max_def split: if_splits) auto
    then show ?thesis using per[OF that] by (simp add: entriesPerBucket_def)
  qed
  moreover have "(\<Sum>b<B. ?n b) = 2 ^ k"
  proof -
    have "(2::nat) ^ k \<le> B * CDiv (2 ^ k) B" using assms(2) by (rule CDiv_mult_ge)
    then have "int (2 ^ k) \<le> int (B * CDiv (2 ^ k) B)" by (simp only: of_nat_le_iff)
    then have "(2::int) ^ k \<le> int B * ?E" by (simp add: entriesPerBucket_def)
    then have "int (\<Sum>b<B. ?n b) = int (2 ^ k)" using upto[of B] by simp
    then show ?thesis by (simp only: of_nat_eq_iff)
  qed
  ultimately show ?thesis using len by blast
qed


theorem GenF1_produces_table_entries_witness:
  "(0::nat) < 2 \<and> (0::nat) < 4 \<and> (4::nat) \<le> 62
   \<and> (\<Sum>b<4. \<Sum>jobId<2. length (F1_round_entries 4 10 (\<lambda>j. 0) (\<lambda>j. 0) (GenF1 4 4 2 jobId ! b))) = 2 ^ 4"
  using GenF1_produces_table_entries[of 2 4 4 10 "\<lambda>j. 0" "\<lambda>j. 0"] by simp

section \<open>F1: the packed record\<close>

lemma yMask_eq_mask: "(push_bit n 1 - 1 :: uint64) = mask n"
  by (simp add: mask_eq_exp_minus_1 push_bit_eq_mult)

lemma kMinusKExtraBits_eq:
  assumes "kExtraBits \<le> k" and "k < 2 ^ 32"
  shows "kMinusKExtraBits k = k - kExtraBits"
proof -
  have "(of_nat k - of_nat kExtraBits :: uint32) = of_nat (k - kExtraBits)"
    using assms(1) by simp
  moreover have "k - kExtraBits < 2 ^ 32" using assms(2) by simp
  then have "unat (of_nat (k - kExtraBits) :: uint32) = k - kExtraBits"
    by (simp add: unat_of_nat take_bit_nat_eq_self)
  ultimately show ?thesis by (simp add: kMinusKExtraBits_def)
qed

lemma GenF1_y_take_bit:
  "GenF1_y k yBits blk xi
     = take_bit yBits (push_bit kExtraBits (ucast (Swap32 blk)) OR drop_bit (kMinusKExtraBits k) xi)"
  unfolding GenF1_y_def Let_def yMask_eq_mask by (simp only: take_bit_eq_mask)

lemma GenF1_entry_low:
  "take_bit yBits (GenF1_entry k yBits blk xi) = GenF1_y k yBits blk xi"
  unfolding GenF1_entry_def GenF1_y_take_bit
  by (rule bit_word_eqI) (auto simp add: bit_simps)

lemma GenF1_entry_high:
  "drop_bit yBits (GenF1_entry k yBits blk xi) = take_bit (64 - yBits) xi"
  unfolding GenF1_entry_def GenF1_y_take_bit
  by (rule bit_word_eqI) (auto simp add: bit_simps)

lemma record_fields_of_entry:
  assumes "yBits + k \<le> 64" and "take_bit k xi = xi"
  shows "record_fields yBits k (BitWriter_record (yBits + k) (GenF1_entry k yBits blk xi))
           = (GenF1_y k yBits blk xi, xi)"
proof -
  let ?e = "GenF1_entry k yBits blk xi"
  have low: "take_bit yBits (take_bit (yBits + k) ?e) = GenF1_y k yBits blk xi"
    using GenF1_entry_low[of yBits k blk xi] by (simp add: min_def)
  have "take_bit k (drop_bit yBits (take_bit (yBits + k) ?e)) = take_bit k (drop_bit yBits ?e)"
    by (rule bit_word_eqI) (auto simp add: bit_simps)
  also have "\<dots> = take_bit k (take_bit (64 - yBits) xi)"
    by (simp only: GenF1_entry_high)
  also have "\<dots> = take_bit k xi"
    by (rule bit_word_eqI) (use assms(1) in \<open>auto simp add: bit_simps\<close>)
  finally have high: "take_bit k (drop_bit yBits (take_bit (yBits + k) ?e)) = xi"
    using assms(2) by simp
  show ?thesis
    unfolding record_fields_def BitWriter_record_def using low high by simp
qed

text \<open>
  C6, as the code has it. Every pair \<open>(xi, e)\<close> a worker produces in a round
  comes from one step \<open>i\<close> of its loop, with \<open>xi = x + i\<close>, and \<open>e\<close> is the 64-bit
  value \<open>(xi << yBits) | y\<close> that is handed to the bit writer with
  \<open>yBits + k\<close> bits. When the two fields fit the 64 bits of the entry
  (\<open>yBits + k \<le> 64\<close>) and \<open>xi\<close> is a \<open>k\<close>-bit value, the record is \<open>y\<close> followed
  by \<open>x\<close>, layout \<open>(y : yBits) || (x : k)\<close>, with
  \<open>y = (rawY << kExtraBits) | (xi >> (k - kExtraBits))\<close> truncated to \<open>yBits\<close>
  bits and \<open>rawY\<close> the byte-swapped chunk \<open>blocks[i]\<close>. The width of \<open>y\<close> is
  \<open>yBits = Info::YBitSize\<close>, whatever that constant is.
\<close>

theorem GenF1_record_is_y_then_x:
  assumes "(xi, e) \<in> set (F1_round_entries k yBits ks st r)"
    and "kExtraBits \<le> k" and "yBits + k \<le> 64" and "xi < 2 ^ k"
  shows "\<exists>i < nat (entriesPerThread r).
           xi = (firstX r + i) mod 2 ^ 64
         \<and> record_fields yBits k (BitWriter_record (yBits + k) e)
             = (take_bit yBits (push_bit kExtraBits (ucast (Swap32 (F1_blocks ks st r i)))
                                OR drop_bit (k - kExtraBits) (of_nat xi)),
                of_nat xi)"
proof -
  from assms(1) obtain i where i: "i < nat (entriesPerThread r)"
    and xi: "xi = (firstX r + i) mod 2 ^ 64"
    and e: "e = GenF1_entry k yBits (F1_blocks ks st r i) (of_nat xi)"
    by (auto simp: F1_round_entries_def Let_def)
  have k32: "k < 2 ^ 32" using assms(3) by simp
  have small: "take_bit k (of_nat xi :: uint64) = of_nat xi"
    using assms(4) by (simp add: take_bit_of_nat take_bit_nat_eq_self)
  have y: "GenF1_y k yBits (F1_blocks ks st r i) (of_nat xi)
             = take_bit yBits (push_bit kExtraBits (ucast (Swap32 (F1_blocks ks st r i)))
                               OR drop_bit (k - kExtraBits) (of_nat xi))"
    by (simp only: GenF1_y_take_bit kMinusKExtraBits_eq[OF assms(2) k32])
  have "record_fields yBits k (BitWriter_record (yBits + k) e)
          = (GenF1_y k yBits (F1_blocks ks st r i) (of_nat xi), of_nat xi)"
    unfolding e by (rule record_fields_of_entry[OF assms(3) small])
  with i xi y show ?thesis
    by (intro exI[of _ i]) simp
qed

theorem GenF1_record_is_y_then_x_witness:
  "(5, GenF1_entry 32 32 (0x12345678) 5)
     \<in> set (F1_round_entries 32 32 (\<lambda>j. 0x12345678) (\<lambda>j. 0)
              \<lparr>bucketEntryCount = 1, entriesPerThread = 1, firstX = 5, chachaBlock = 0, blockCount = 1\<rparr>)
   \<and> record_fields 32 32 (BitWriter_record 64 (GenF1_entry 32 32 (0x12345678) 5))
       = (0x158D0480, 5)"
  using GenF1_record_is_y_then_x[of 5 "GenF1_entry 32 32 (0x12345678) 5" 32 32 "\<lambda>j. 0x12345678" "\<lambda>j. 0"
      "\<lparr>bucketEntryCount = 1, entriesPerThread = 1, firstX = 5, chachaBlock = 0, blockCount = 1\<rparr>"]
  by (simp add: F1_round_entries_def F1_blocks_def kF1BlockSize_def Swap32_def kExtraBits_def)

text \<open>
  For \<open>k = 32\<close> no value of \<open>Info::YBitSize\<close> makes every record the \<open>y\<close> of
  38 bits followed by the \<open>x\<close> of 32 bits: below 38 the \<open>y\<close> of the chunk
  \<open>0x80\<close> (raw \<open>y = 2^31\<close>) loses its top bit, and from 38 on the top bit of
  \<open>x = 2^31\<close> is shifted out of the entry.
\<close>

lemma GenF1_record_never_38_and_32_bits:
  "\<exists>blk xi. xi < 2 ^ 32
     \<and> record_fields 38 32 (BitWriter_record (yBits + 32) (GenF1_entry 32 yBits blk xi))
         \<noteq> (spec_F1_y 32 blk xi, xi)"
proof (cases "yBits \<le> 37")
  case True
  let ?e = "GenF1_entry 32 yBits 0x80 0"
  have s: "spec_F1_y 32 0x80 0 = 2 ^ 37"
    by (simp add: spec_F1_y_def Swap32_def kExtraBits_def)
  have "\<not> bit (take_bit 38 (BitWriter_record (yBits + 32) ?e)) 37"
    using True
    by (auto simp add: GenF1_entry_def GenF1_y_take_bit BitWriter_record_def bit_simps)
  moreover have "bit (2 ^ 37 :: uint64) 37" by (simp add: bit_exp_iff)
  ultimately have "take_bit 38 (BitWriter_record (yBits + 32) ?e) \<noteq> spec_F1_y 32 0x80 0"
    unfolding s by metis
  then have "record_fields 38 32 (BitWriter_record (yBits + 32) ?e)
               \<noteq> (spec_F1_y 32 0x80 0, 0)"
    by (simp add: record_fields_def)
  then show ?thesis by (intro exI[of _ "0x80"] exI[of _ 0]) simp
next
  case False
  let ?e = "GenF1_entry 32 yBits 0 (2 ^ 31)"
  have "\<not> bit (take_bit 32 (drop_bit 38 (BitWriter_record (yBits + 32) ?e))) 31"
    using False
    by (auto simp add: GenF1_entry_def GenF1_y_take_bit BitWriter_record_def bit_simps
        kMinusKExtraBits_def Swap32_def kExtraBits_def bit_exp_iff)
  moreover have "bit (2 ^ 31 :: uint64) 31" by (simp add: bit_exp_iff)
  ultimately have "take_bit 32 (drop_bit 38 (BitWriter_record (yBits + 32) ?e)) \<noteq> 2 ^ 31"
    by metis
  then have "record_fields 38 32 (BitWriter_record (yBits + 32) ?e)
               \<noteq> (spec_F1_y 32 0 (2 ^ 31), 2 ^ 31)"
    by (simp add: record_fields_def)
  then show ?thesis by (intro exI[of _ 0] exI[of _ "2 ^ 31"]) simp
qed

text \<open>
  The widths of the claim, \<open>(y : k+kExtraBits) || (x : k)\<close>, are 70 bits for
  \<open>k = 32\<close> and do not fit the 64-bit entry. If \<open>yBits\<close> is \<open>k + kExtraBits = 38\<close>,
  the entry of \<open>x = 2^31\<close> and a zero chunk holds \<open>y\<close> and only the low 26
  bits of \<open>x\<close>, so the second field of the record is not \<open>x\<close>. If \<open>yBits\<close> is
  32, \<open>y\<close> is cut to 32 bits: the chunks \<open>0xFC\<close> and \<open>0\<close>, whose \<open>y\<close> of 38
  bits differ, give the same entry for \<open>x = 0\<close>, so no record made from the
  entry holds the \<open>y\<close> of 38 bits.
\<close>

theorem GenF1_record_not_38_and_32_bits:
  "record_fields 38 32 (BitWriter_record 70 (GenF1_entry 32 38 0 (2 ^ 31)))
     \<noteq> (spec_F1_y 32 0 (2 ^ 31), 2 ^ 31)
   \<and> GenF1_entry 32 32 0xFC 0 = GenF1_entry 32 32 0 0
   \<and> spec_F1_y 32 0xFC 0 \<noteq> spec_F1_y 32 0 0"
  by (simp add: GenF1_entry_def GenF1_y_def kMinusKExtraBits_def record_fields_def
      BitWriter_record_def spec_F1_y_def Swap32_def kExtraBits_def)

section \<open>F1: the cipher block a worker starts at\<close>

lemma GenF1_rounds_first:
  "0 < n \<Longrightarrow> GenF1_rounds k B T jobId n tec nx ! 0 = GenF1_round k B T jobId tec nx"
  by (cases n) (simp_all add: Let_def)

lemma GenF1_first_round_two_workers:
  "GenF1 32 64 2 1 ! 0 = \<lparr>bucketEntryCount = 2 ^ 26, entriesPerThread = 2 ^ 25, firstX = 2 ^ 25,
     chachaBlock = 2 ^ 19, blockCount = 2 ^ 21\<rparr>"
  by (simp add: GenF1_def GenF1_rounds_first GenF1_round_def entriesPerBucket_def CDiv_def
      cdiv_int_def to_uint64_def kF1BlockSize_def entriesPerBlock_def kF1BlockSizeBits_def Let_def)

lemma GenF1_first_round_one_worker:
  "GenF1 32 64 1 0 ! 0 = \<lparr>bucketEntryCount = 2 ^ 26, entriesPerThread = 2 ^ 26, firstX = 0,
     chachaBlock = 0, blockCount = 2 ^ 22\<rparr>"
  by (simp add: GenF1_def GenF1_rounds_first GenF1_round_def entriesPerBucket_def CDiv_def
      cdiv_int_def to_uint64_def kF1BlockSize_def entriesPerBlock_def kF1BlockSizeBits_def Let_def)

text \<open>
  C7, evaluated on the code for \<open>k = 32\<close> and 64 buckets: the second of two
  workers starts the first bucket at \<open>x = 2^25\<close> and asks the cipher for block
  \<open>2^25 / kF1BlockSize = 2^19\<close>, where \<open>x / entriesPerBlock\<close> is \<open>2^21\<close>. So
  \<open>x = 2^25\<close> is derived from cipher chunk \<open>2^23\<close> with two workers and from
  chunk \<open>2^25\<close> with one.
\<close>

theorem GenF1_start_block_depends_on_worker_count:
  "chachaBlock (GenF1 32 64 2 1 ! 0) = 2 ^ 19
   \<and> firstX (GenF1 32 64 2 1 ! 0) div nat (entriesPerBlock 32) = 2 ^ 21
   \<and> F1_round_entries 32 38 ks st (GenF1 32 64 2 1 ! 0) ! 0
        = (2 ^ 25, GenF1_entry 32 38 (ks (2 ^ 23)) (2 ^ 25))
   \<and> F1_round_entries 32 38 ks st (GenF1 32 64 1 0 ! 0) ! (2 ^ 25)
        = (2 ^ 25, GenF1_entry 32 38 (ks (2 ^ 25)) (2 ^ 25))"
  unfolding GenF1_first_round_two_workers GenF1_first_round_one_worker
  by (simp add: F1_round_entries_def F1_blocks_def kF1BlockSize_def entriesPerBlock_def
      kF1BlockSizeBits_def)

section \<open>Null queue and missing run of the chunked generator\<close>

lemma count_chunks_stop:
  "\<not> chunks \<le> trailing \<Longrightarrow> count_chunks perChunk chunks trailing = Some (chunks, trailing)"
  by (subst count_chunks.simps) simp

lemma configure_jobs_numeral:
  "configure_jobs (numeral k) proto hasMetaB trailing prs yT mA mB =
   configure_jobs (Suc (pred_numeral k)) proto hasMetaB trailing prs yT mA mB"
  by (simp only: numeral_eq_Suc)

text \<open>
  C10, evaluated on the code: the in-memory entry point passes a null queue,
  and the conditional then reads the block size through it; with a queue whose
  block size is 4096 every job is configured with file block size 1.
\<close>

theorem in_memory_dereferences_null_queue:
  "GenerateFxBucketizedInMemory Table2 False 4 0 1000 = Some (Inl NullPointerDereference)
   \<and> (case GenFxBucketizedChunked Table2 False (Some \<lparr>BlockSize = 4096\<rparr>) 2 0 False 0 1000 of
          Some (Inr r) \<Rightarrow> map fileBlockSize (jobs r) = [1, 1]
        | _ \<Rightarrow> False)"
  by (simp add: GenerateFxBucketizedInMemory_def GenFxBucketizedChunked_def Let_def
      count_chunks_stop configure_jobs_numeral)

text \<open>
  C9, evaluated on the code: for two workers and 1000 pairs the chunked
  generator configures two jobs of 500 pairs each and runs none of them,
  where the unchunked generator runs both.
\<close>

theorem chunked_generator_runs_no_job:
  "(case GenFxBucketizedChunked Table2 False (Some \<lparr>BlockSize = 4096\<rparr>) 2 0 False 0 1000 of
      Some (Inr r) \<Rightarrow> map entryCount (jobs r) = [500, 500] \<and> jobsRun r = 0
    | _ \<Rightarrow> False)
   \<and> (case GenFxBucketized Table2 False 2 0 0 1000 of
          Inr r \<Rightarrow> map entryCount (jobs r) = [500, 500] \<and> jobsRun r = 2
        | _ \<Rightarrow> False)"
  by (simp add: GenFxBucketizedChunked_def GenFxBucketized_def Let_def
      count_chunks_stop configure_jobs_numeral)

section \<open>WriteBuckets\<close>

lemma FileStream_Write_ok:
  assumes "1 \<le> snd (FileStream_Write d fileId bucket buf)"
  shows "\<exists>n. n \<le> length buf \<and> snd (FileStream_Write d fileId bucket buf) = int n
           \<and> log (fst (FileStream_Write d fileId bucket buf)) = log d @ [(fileId, bucket, take n buf)]
           \<and> set (outcomes (fst (FileStream_Write d fileId bucket buf))) \<subseteq> set (outcomes d)"
proof (cases "outcomes d")
  case Nil
  then show ?thesis by (intro exI[of _ "length buf"]) (simp add: FileStream_Write_def)
next
  case (Cons r rs)
  with assms have "\<not> r < 1" by (auto simp: FileStream_Write_def split: if_splits)
  with Cons show ?thesis
    by (intro exI[of _ "min (nat r) (length buf)"]) (auto simp: FileStream_Write_def min_def)
qed

lemma map_mem_split:
  "n \<le> sz \<Longrightarrow> map mem [buffer ..< buffer + sz]
     = take n (map mem [buffer ..< buffer + sz]) @ map mem [buffer + n ..< buffer + n + (sz - n)]"
proof -
  assume n: "n \<le> sz"
  have "[buffer ..< buffer + n + (sz - n)] = [buffer ..< buffer + n] @ [buffer + n ..< buffer + n + (sz - n)]"
    by (rule upt_add_eq_append) simp
  then show ?thesis using n by (simp add: take_map)
qed

lemma write_loop_log:
  "write_loop d fileId bucket mem buffer sz = Inr (d', buffer') \<Longrightarrow>
   buffer' = buffer + sz \<and>
   (\<exists>cs. log d' = log d @ map (\<lambda>c. (fileId, bucket, c)) cs
         \<and> concat cs = map mem [buffer ..< buffer + sz])"
proof (induction d fileId bucket mem buffer sz rule: write_loop.induct)
  case (1 d fileId bucket mem buffer sz)
  show ?case
  proof (cases "sz = 0")
    case True
    with "1.prems" show ?thesis by (auto intro: exI[of _ "[]"])
  next
    case False
    let ?buf = "map mem [buffer ..< buffer + sz]"
    let ?res = "FileStream_Write d fileId bucket ?buf"
    from False "1.prems" have ok: "\<not> snd ?res < 1"
      by (subst (asm) write_loop.simps) (auto simp: Let_def split: if_splits)
    then have ok': "1 \<le> snd ?res" by simp
    from FileStream_Write_ok[OF ok'] obtain n where n: "n \<le> length ?buf" "snd ?res = int n"
      and lg: "log (fst ?res) = log d @ [(fileId, bucket, take n ?buf)]" by blast
    from n have nsz: "n \<le> sz" by simp
    from False ok "1.prems" have rec:
      "write_loop (fst ?res) fileId bucket mem (buffer + n) (sz - n) = Inr (d', buffer')"
      by (subst (asm) write_loop.simps) (simp add: Let_def n)
    from "1.IH"[OF False refl ok] rec n obtain cs where
      b': "buffer' = buffer + n + (sz - n)" and
      cs: "log d' = log (fst ?res) @ map (\<lambda>c. (fileId, bucket, c)) cs"
          "concat cs = map mem [buffer + n ..< buffer + n + (sz - n)]"
      by auto
    have "log d' = log d @ map (\<lambda>c. (fileId, bucket, c)) (take n ?buf # cs)"
      using cs(1) lg by simp
    moreover have "concat (take n ?buf # cs) = ?buf"
      using map_mem_split[OF nsz, of mem buffer] cs(2) by simp
    ultimately show ?thesis using b' nsz by (intro conjI exI[of _ "take n ?buf # cs"]) auto
  qed
qed


lemma FileStream_Write_progress:
  assumes "buf \<noteq> []" and "\<forall>r \<in> set (outcomes d). 1 \<le> r"
  shows "1 \<le> snd (FileStream_Write d fileId bucket buf)"
proof (cases "outcomes d")
  case Nil
  with assms(1) show ?thesis by (cases buf) (simp_all add: FileStream_Write_def)
next
  case (Cons r rs)
  with assms(2) have "1 \<le> r" by simp
  moreover have "1 \<le> length buf" using assms(1) by (cases buf) simp_all
  ultimately show ?thesis using Cons by (simp add: FileStream_Write_def)
qed

lemma write_loop_returns:
  "\<forall>r \<in> set (outcomes d). 1 \<le> r \<Longrightarrow>
   \<exists>d' buffer'. write_loop d fileId bucket mem buffer sz = Inr (d', buffer')
        \<and> set (outcomes d') \<subseteq> set (outcomes d)"
proof (induction d fileId bucket mem buffer sz rule: write_loop.induct)
  case (1 d fileId bucket mem buffer sz)
  show ?case
  proof (cases "sz = 0")
    case True
    then show ?thesis by simp
  next
    case False
    let ?buf = "map mem [buffer ..< buffer + sz]"
    let ?res = "FileStream_Write d fileId bucket ?buf"
    have ne: "?buf \<noteq> []" using False by simp
    have ok': "1 \<le> snd ?res" using FileStream_Write_progress[OF ne "1.prems"] .
    then have ok: "\<not> snd ?res < 1" by simp
    from FileStream_Write_ok[OF ok'] have sub: "set (outcomes (fst ?res)) \<subseteq> set (outcomes d)"
      by blast
    with "1.prems" have "\<forall>r \<in> set (outcomes (fst ?res)). 1 \<le> r" by blast
    from "1.IH"[OF False refl ok this] obtain d' buffer' where
      "write_loop (fst ?res) fileId bucket mem (buffer + nat (snd ?res)) (sz - nat (snd ?res))
         = Inr (d', buffer')" and "set (outcomes d') \<subseteq> set (outcomes (fst ?res))"
      by blast
    then show ?thesis using False ok sub
      by (subst write_loop.simps) (auto simp: Let_def)
  qed
qed

lemma WriteToFile_log:
  assumes good: "\<forall>r \<in> set (outcomes d). 1 \<le> r"
    and blk: "useDirectIO q \<Longrightarrow> 0 < blockSize q \<and> blockSize q dvd sz"
  shows "\<exists>d' cs. WriteToFile q d fileId bucket mem buffer sz = Inr d'
           \<and> log d' = log d @ map (\<lambda>c. (fileId, bucket, c)) cs
           \<and> concat cs = map mem [buffer ..< buffer + sz]
           \<and> set (outcomes d') \<subseteq> set (outcomes d)"
proof -
  from write_loop_returns[OF good] obtain d' buffer' where
    wl: "write_loop d fileId bucket mem buffer sz = Inr (d', buffer')"
    and sub: "set (outcomes d') \<subseteq> set (outcomes d)" by blast
  from write_loop_log[OF wl] obtain cs where
    cs: "log d' = log d @ map (\<lambda>c. (fileId, bucket, c)) cs"
        "concat cs = map mem [buffer ..< buffer + sz]" by blast
  have "WriteToFile q d fileId bucket mem buffer sz = Inr d'"
  proof (cases "useDirectIO q")
    case False
    then show ?thesis using wl by (simp add: WriteToFile_def)
  next
    case True
    with blk have "0 < blockSize q" "sz div blockSize q * blockSize q = sz" by auto
    then show ?thesis using True wl by (simp add: WriteToFile_def)
  qed
  then show ?thesis using cs sub by blast
qed

lemma write_buckets_log:
  assumes "\<forall>r \<in> set (outcomes d). 1 \<le> r"
    and "useDirectIO q \<Longrightarrow> 0 < blockSize q"
  shows "\<exists>d' css. write_buckets q fileId mem sizes idxs d buffer
             = Inr (d', buffer + sum_list (map (\<lambda>i. bucket_bufferOffset q (sizes ! i)) idxs))
           \<and> length css = length idxs
           \<and> log d' = log d @ concat (map (\<lambda>(i, cs). map (\<lambda>c. (fileId, i, c)) cs) (zip idxs css))
           \<and> (\<forall>m < length idxs. concat (css ! m)
                  = map mem [buffer + sum_list (map (\<lambda>i. bucket_bufferOffset q (sizes ! i)) (take m idxs))
                             ..< buffer + sum_list (map (\<lambda>i. bucket_bufferOffset q (sizes ! i)) (take m idxs))
                                 + bucket_writeSize q (sizes ! (idxs ! m))])
           \<and> set (outcomes d') \<subseteq> set (outcomes d)"
  using assms(1)
proof (induction idxs arbitrary: d buffer)
  case Nil
  then show ?case by simp
next
  case (Cons i idxs)
  let ?adv = "\<lambda>i. bucket_bufferOffset q (sizes ! i)"
  let ?w = "bucket_writeSize q (sizes ! i)"
  have "useDirectIO q \<Longrightarrow> 0 < blockSize q \<and> blockSize q dvd ?w"
    using assms(2) by (simp add: bucket_writeSize_def)
  from WriteToFile_log[OF Cons.prems this, of fileId i mem buffer] obtain d1 cs where
    w: "WriteToFile q d fileId i mem buffer ?w = Inr d1"
    and l1: "log d1 = log d @ map (\<lambda>c. (fileId, i, c)) cs"
    and c1: "concat cs = map mem [buffer ..< buffer + ?w]"
    and s1: "set (outcomes d1) \<subseteq> set (outcomes d)" by blast
  from s1 Cons.prems have "\<forall>r \<in> set (outcomes d1). 1 \<le> r" by blast
  from Cons.IH[OF this, of "buffer + ?adv i"] obtain d' css where
    r: "write_buckets q fileId mem sizes idxs d1 (buffer + ?adv i)
          = Inr (d', buffer + ?adv i + sum_list (map ?adv idxs))"
    and len: "length css = length idxs"
    and l2: "log d' = log d1 @ concat (map (\<lambda>(i, cs). map (\<lambda>c. (fileId, i, c)) cs) (zip idxs css))"
    and c2: "\<forall>m < length idxs. concat (css ! m)
                  = map mem [buffer + ?adv i + sum_list (map ?adv (take m idxs))
                             ..< buffer + ?adv i + sum_list (map ?adv (take m idxs))
                                 + bucket_writeSize q (sizes ! (idxs ! m))]"
    and s2: "set (outcomes d') \<subseteq> set (outcomes d1)" by blast
  have nz: "\<not> (useDirectIO q \<and> blockSize q = 0)" using assms(2) by auto
  have "write_buckets q fileId mem sizes (i # idxs) d buffer
          = Inr (d', buffer + sum_list (map ?adv (i # idxs)))"
    using nz w r by (simp add: add.assoc)
  moreover have "length (cs # css) = length (i # idxs)" using len by simp
  moreover have "log d' = log d @ concat (map (\<lambda>(i, cs). map (\<lambda>c. (fileId, i, c)) cs)
                                        (zip (i # idxs) (cs # css)))"
    using l1 l2 by simp
  moreover have "\<forall>m < length (i # idxs). concat ((cs # css) ! m)
                  = map mem [buffer + sum_list (map ?adv (take m (i # idxs)))
                             ..< buffer + sum_list (map ?adv (take m (i # idxs)))
                                 + bucket_writeSize q (sizes ! ((i # idxs) ! m))]"
  proof (intro allI impI)
    fix m assume "m < length (i # idxs)"
    then show "concat ((cs # css) ! m)
                  = map mem [buffer + sum_list (map ?adv (take m (i # idxs)))
                             ..< buffer + sum_list (map ?adv (take m (i # idxs)))
                                 + bucket_writeSize q (sizes ! ((i # idxs) ! m))]"
      using c1 c2 by (cases m) (simp_all add: add.assoc)
  qed
  moreover have "set (outcomes d') \<subseteq> set (outcomes d)" using s1 s2 by blast
  ultimately show ?case by blast
qed


lemma RoundUpToNextBoundary_multiple:
  assumes "0 < b"
  shows "b dvd RoundUpToNextBoundary v b \<and> v \<le> RoundUpToNextBoundary v b
         \<and> RoundUpToNextBoundary v b < v + b"
proof (cases "v mod b = 0")
  case True
  then show ?thesis using assms by (auto simp: RoundUpToNextBoundary_def)
next
  case False
  have lt: "v mod b < b" using assms by simp
  then have "(b - v mod b) mod b = b - v mod b" using False by simp
  then have eq: "RoundUpToNextBoundary v b = v + (b - v mod b)"
    by (simp add: RoundUpToNextBoundary_def)
  have "v div b * b + v mod b = v" by simp
  then have "v + (b - v mod b) = v div b * b + b" using lt by linarith
  also have "\<dots> = (v div b + 1) * b" by simp
  finally have "b dvd v + (b - v mod b)" by simp
  then show ?thesis using eq lt False by auto
qed

lemma zip_upt_map:
  "length css = n \<Longrightarrow> map f (zip [0 ..< n] css) = map (\<lambda>i. f (i, css ! i)) [0 ..< n]"
  by (rule nth_equalityI) simp_all

text \<open>
  C8: a \<open>WriteBuckets\<close> command none of whose writes fails returns, and the
  writes it adds to the log are those of bucket 0, then bucket 1, and so on for
  the \<open>B\<close> files of the set; the bytes written for bucket \<open>i\<close> (in one or more
  calls) are the bytes of the source buffer from the bucket's start on, as
  many as the write size. With direct I/O the write size is
  \<open>floor(sizes[i] / S) * S\<close> and the source pointer moves on by the least
  multiple of \<open>S\<close> not below \<open>sizes[i]\<close>, so the \<open>sizes[i] mod S\<close> bytes at the
  end of the region are not written; without direct I/O both are \<open>sizes[i]\<close>.
\<close>

theorem CmdWriteBuckets_writes_regions_in_order:
  assumes "\<forall>r \<in> set (outcomes d). 1 \<le> r"
    and "useDirectIO q \<longrightarrow> 0 < blockSize q"
    and "fileCount q fileId \<le> length sizes"
  shows "\<exists>d' css.
           CmdWriteBuckets q fileId mem buffers sizes d
             = Inr (d', buffers + (\<Sum>i<fileCount q fileId. bucket_bufferOffset q (sizes ! i)))
         \<and> length css = fileCount q fileId
         \<and> log d' = log d @ concat (map (\<lambda>i. map (\<lambda>c. (fileId, i, c)) (css ! i))
                                       [0 ..< fileCount q fileId])
         \<and> (\<forall>i < fileCount q fileId.
               concat (css ! i)
                 = map mem [buffers + (\<Sum>j<i. bucket_bufferOffset q (sizes ! j))
                            ..< buffers + (\<Sum>j<i. bucket_bufferOffset q (sizes ! j))
                                + bucket_writeSize q (sizes ! i)]
             \<and> (if useDirectIO q
                  then bucket_writeSize q (sizes ! i) = unat (sizes ! i) div blockSize q * blockSize q
                     \<and> blockSize q dvd bucket_bufferOffset q (sizes ! i)
                     \<and> unat (sizes ! i) \<le> bucket_bufferOffset q (sizes ! i)
                     \<and> bucket_bufferOffset q (sizes ! i) < unat (sizes ! i) + blockSize q
                  else bucket_writeSize q (sizes ! i) = unat (sizes ! i)
                     \<and> bucket_bufferOffset q (sizes ! i) = unat (sizes ! i)))"
proof -
  let ?n = "fileCount q fileId"
  let ?adv = "\<lambda>i. bucket_bufferOffset q (sizes ! i)"
  have pos: "useDirectIO q \<Longrightarrow> 0 < blockSize q" using assms(2) by simp
  from write_buckets_log[OF assms(1) pos, of fileId mem sizes "[0 ..< ?n]" buffers]
  obtain d' css where
    r: "write_buckets q fileId mem sizes [0 ..< ?n] d buffers
          = Inr (d', buffers + sum_list (map ?adv [0 ..< ?n]))"
    and len: "length css = ?n"
    and lg: "log d' = log d @ concat (map (\<lambda>(i, cs). map (\<lambda>c. (fileId, i, c)) cs) (zip [0 ..< ?n] css))"
    and reg: "\<forall>m < ?n. concat (css ! m)
                  = map mem [buffers + sum_list (map ?adv (take m [0 ..< ?n]))
                             ..< buffers + sum_list (map ?adv (take m [0 ..< ?n]))
                                 + bucket_writeSize q (sizes ! ([0 ..< ?n] ! m))]"
    by auto
  have sums: "sum_list (map ?adv [0 ..< m]) = (\<Sum>j<m. ?adv j)" for m
    by (simp add: interv_sum_list_conv_sum_set_nat atLeast0LessThan)
  have "CmdWriteBuckets q fileId mem buffers sizes d = Inr (d', buffers + (\<Sum>i<?n. ?adv i))"
    using r by (simp add: CmdWriteBuckets_def sums)
  moreover have "log d' = log d @ concat (map (\<lambda>i. map (\<lambda>c. (fileId, i, c)) (css ! i)) [0 ..< ?n])"
    using lg by (simp add: zip_upt_map[OF len])
  moreover have "concat (css ! i)
                 = map mem [buffers + (\<Sum>j<i. ?adv j)
                            ..< buffers + (\<Sum>j<i. ?adv j) + bucket_writeSize q (sizes ! i)]"
    if "i < ?n" for i
  proof -
    have "take i [0 ..< ?n] = [0 ..< i]" using that by (simp add: take_upt)
    then show ?thesis using reg that by (simp add: sums)
  qed
  moreover have "if useDirectIO q
                  then bucket_writeSize q (sizes ! i) = unat (sizes ! i) div blockSize q * blockSize q
                     \<and> blockSize q dvd bucket_bufferOffset q (sizes ! i)
                     \<and> unat (sizes ! i) \<le> bucket_bufferOffset q (sizes ! i)
                     \<and> bucket_bufferOffset q (sizes ! i) < unat (sizes ! i) + blockSize q
                  else bucket_writeSize q (sizes ! i) = unat (sizes ! i)
                     \<and> bucket_bufferOffset q (sizes ! i) = unat (sizes ! i)" for i
    using RoundUpToNextBoundary_multiple[OF pos, of "unat (sizes ! i)"]
    by (simp add: bucket_writeSize_def bucket_bufferOffset_def)
  ultimately show ?thesis using len by blast
qed

lemma sum_lessThan_two: "(\<Sum>i<(2::nat). f i) = f 0 + (f 1 :: nat)"
  by (simp add: numeral_2_eq_2)

theorem CmdWriteBuckets_writes_regions_in_order_witness:
  "\<exists>d'. CmdWriteBuckets \<lparr>blockSize = 4, useDirectIO = True, fileCount = (\<lambda>f. 2)\<rparr> Y0
           (\<lambda>a. of_nat a) 100 [6, 3] \<lparr>log = [], outcomes = [3, 1]\<rparr> = Inr (d', 112)"
  using CmdWriteBuckets_writes_regions_in_order[of "\<lparr>log = [], outcomes = [3, 1]\<rparr>"
      "\<lparr>blockSize = 4, useDirectIO = True, fileCount = (\<lambda>f. 2)\<rparr>" Y0 "[6, 3]" "\<lambda>a. of_nat a" 100]
  by (auto simp: bucket_bufferOffset_def RoundUpToNextBoundary_def sum_lessThan_two)

section \<open>Prefix sums and the scatter into buckets\<close>

subsection \<open>Loops over an index range\<close>

lemma pointwise_loop_length:
  "length (fold (\<lambda>j p. p[j := g j p]) js p) = length p"
  by (induction js arbitrary: p) simp_all

lemma pointwise_loop_nth:
  "n \<le> length p \<Longrightarrow> i < length p \<Longrightarrow>
   fold (\<lambda>j p. p[j := g j (p ! j)]) [0 ..< n] p ! i = (if i < n then g i (p ! i) else p ! i)"
proof (induction n arbitrary: i)
  case 0
  then show ?case by simp
next
  case (Suc n)
  let ?p = "fold (\<lambda>j p. p[j := g j (p ! j)]) [0 ..< n] p"
  have len: "length ?p = length p"
    using pointwise_loop_length[of "\<lambda>j p. g j (p ! j)" "[0 ..< n]" p] .
  have n: "n < length p" using Suc.prems by simp
  have at_n: "?p ! n = p ! n" using Suc.IH[of n] n by simp
  have "fold (\<lambda>j p. p[j := g j (p ! j)]) [0 ..< Suc n] p = ?p[n := g n (?p ! n)]" by simp
  then show ?case using Suc.IH[of i] Suc.prems n at_n len
    by (cases "i = n") (simp_all add: less_Suc_eq)
qed

lemma add_counts_nth:
  "B \<le> length p \<Longrightarrow> j < length p \<Longrightarrow>
   add_counts B tc p ! j = (if j < B then p ! j + tc ! j else p ! j)"
  unfolding add_counts_def by (rule pointwise_loop_nth[where g = "\<lambda>j v. v + tc ! j"])

lemma add_counts_length: "length (add_counts B tc p) = length p"
  unfolding add_counts_def
  using pointwise_loop_length[of "\<lambda>j p. p ! j + tc ! j" "[0 ..< B]" p] .

lemma sub_counts_nth:
  "B \<le> length p \<Longrightarrow> j < length p \<Longrightarrow>
   sub_counts B tc p ! j = (if j < B then p ! j - tc ! j else p ! j)"
  unfolding sub_counts_def by (rule pointwise_loop_nth[where g = "\<lambda>j v. v - tc ! j"])

lemma sub_counts_length: "length (sub_counts B tc p) = length p"
  unfolding sub_counts_def
  using pointwise_loop_length[of "\<lambda>j p. p ! j - tc ! j" "[0 ..< B]" p] .

lemma sub_padding_nth:
  "B \<le> length p \<Longrightarrow> j < length p \<Longrightarrow>
   sub_padding B pad p ! j = (if j < B - 1 then p ! j - pad ! j else p ! j)"
  unfolding sub_padding_def
  by (rule pointwise_loop_nth[where g = "\<lambda>j v. v - pad ! j"]) simp_all

lemma fold_over_jobs:
  "fold (\<lambda>t p. f (cs ! t) p) [k ..< length cs] p = fold f (drop k cs) p"
proof -
  have "map ((!) cs) [k ..< length cs] = drop k cs"
    by (rule nth_equalityI) simp_all
  then have "fold f (drop k cs) p = fold f (map ((!) cs) [k ..< length cs]) p" by simp
  also have "\<dots> = fold (\<lambda>t p. f (cs ! t) p) [k ..< length cs] p"
    by (simp add: fold_map comp_def)
  finally show ?thesis by simp
qed

lemma fold_add_counts_nth:
  "B \<le> length p \<Longrightarrow> j < B \<Longrightarrow>
   fold (add_counts B) cs p ! j = p ! j + (\<Sum>c\<leftarrow>cs. c ! j)"
proof (induction cs arbitrary: p)
  case Nil
  then show ?case by simp
next
  case (Cons c cs)
  have "B \<le> length (add_counts B c p)" using Cons.prems by (simp add: add_counts_length)
  from Cons.IH[OF this Cons.prems(2)] show ?case
    using Cons.prems by (simp add: add_counts_nth add.assoc)
qed

lemma fold_add_counts_length: "length (fold (add_counts B) cs p) = length p"
  by (induction cs arbitrary: p) (simp_all add: add_counts_length)

lemma fold_sub_counts_nth:
  "B \<le> length p \<Longrightarrow> j < B \<Longrightarrow>
   fold (sub_counts B) cs p ! j = p ! j - (\<Sum>c\<leftarrow>cs. c ! j)"
proof (induction cs arbitrary: p)
  case Nil
  then show ?case by simp
next
  case (Cons c cs)
  have "B \<le> length (sub_counts B c p)" using Cons.prems by (simp add: sub_counts_length)
  from Cons.IH[OF this Cons.prems(2)] show ?case
    using Cons.prems by (simp add: sub_counts_nth algebra_simps)
qed

lemma fold_sub_counts_length: "length (fold (sub_counts B) cs p) = length p"
  by (induction cs arbitrary: p) (simp_all add: sub_counts_length)

lemma running_sum_length: "length (running_sum B p) = length p"
  unfolding running_sum_def
  using pointwise_loop_length[of "\<lambda>i p. p ! i + p ! (i - 1)" "[1 ..< B]" p] .

lemma running_sum_nth:
  "B \<le> length p \<Longrightarrow> i < length p \<Longrightarrow>
   running_sum B p ! i = (if i < B then (\<Sum>j\<le>i. p ! j) else p ! i)"
proof (induction B arbitrary: i)
  case 0
  then show ?case by (simp add: running_sum_def)
next
  case (Suc n)
  show ?case
  proof (cases "n = 0")
    case True
    then show ?thesis using Suc.prems by (auto simp: running_sum_def)
  next
    case False
    let ?p = "running_sum n p"
    have len: "length ?p = length p" by (rule running_sum_length)
    have n: "n < length p" using Suc.prems by simp
    have step: "running_sum (Suc n) p = ?p[n := ?p ! n + ?p ! (n - 1)]"
      using False by (simp add: running_sum_def)
    have at_n: "?p ! n = p ! n" using Suc.IH[of n] n by simp
    have before: "?p ! (n - 1) = (\<Sum>j\<le>n - 1. p ! j)" using Suc.IH[of "n - 1"] n False by simp
    have "{..n} = insert n {..n - 1}" using False by auto
    then have "(\<Sum>j\<le>n. p ! j) = p ! n + (\<Sum>j\<le>n - 1. p ! j)" using False by simp
    then show ?thesis using Suc.IH[of i] Suc.prems n at_n before len step
      by (cases "i = n") (simp_all add: less_Suc_eq)
  qed
qed

lemma align_counts_fold:
  "n \<le> length p \<Longrightarrow> n \<le> length e \<Longrightarrow>
   (let r = fold (\<lambda>i (p, entryPadding).
             (p[i := padded_count fbs (p ! i)],
              entryPadding[i := padded_count fbs (p ! i) - p ! i])) [0 ..< n] (p, e)
    in length (fst r) = length p \<and> length (snd r) = length e
     \<and> (\<forall>i < length p. fst r ! i = (if i < n then padded_count fbs (p ! i) else p ! i))
     \<and> (\<forall>i < n. snd r ! i = padded_count fbs (p ! i) - p ! i))"
proof (induction n)
  case 0
  then show ?case by simp
next
  case (Suc n)
  then show ?case by (auto simp: Let_def case_prod_beta nth_list_update less_Suc_eq)
qed

lemma align_counts_nth:
  assumes "B \<le> length p" and "B \<le> length e"
  shows "length (fst (align_counts B fbs (p, e))) = length p"
    and "i < length p \<Longrightarrow> fst (align_counts B fbs (p, e)) ! i
           = (if i < B - 1 then padded_count fbs (p ! i) else p ! i)"
    and "i < B - 1 \<Longrightarrow> snd (align_counts B fbs (p, e)) ! i = padded_count fbs (p ! i) - p ! i"
  using align_counts_fold[of "B - 1" p e fbs] assms
  by (simp_all add: align_counts_def Let_def)

lemma count_entries_length: "length (count_entries bs c) = length c"
  by (induction bs arbitrary: c) simp_all

lemma count_entries_nth:
  "j < length c \<Longrightarrow>
   count_entries bs c ! j = c ! j + of_nat (length (filter (\<lambda>b. unat b = j) bs))"
proof (induction bs arbitrary: c)
  case Nil
  then show ?case by simp
next
  case (Cons b bs)
  then show ?case by (simp add: nth_list_update)
qed


lemma CalculatePrefixSum_totals:
  "fold (\<lambda>i p. add_counts B (cs ! i) p) [0 ..< length cs] (replicate B 0) = fold (add_counts B) cs (replicate B 0)"
  using fold_over_jobs[of "add_counts B" cs 0 "replicate B 0"] by simp

lemma CalculatePrefixSum_later:
  "fold (\<lambda>t. sub_counts B (cs ! t)) [k ..< length cs] p = fold (sub_counts B) (drop k cs) p"
  using fold_over_jobs[of "sub_counts B" cs k p] by simp

lemma CalculatePrefixSum_bucketCounts:
  "b < B \<Longrightarrow> snd (CalculatePrefixSum B 0 cs fbs bc) ! b = (\<Sum>c\<leftarrow>cs. c ! b)"
  by (simp add: CalculatePrefixSum_def Let_def CalculatePrefixSum_totals fold_add_counts_nth)

lemma CalculatePrefixSum_bucketCounts_length:
  "length (snd (CalculatePrefixSum B 0 cs fbs bc)) = B"
  by (simp add: CalculatePrefixSum_def Let_def CalculatePrefixSum_totals fold_add_counts_length)

lemma CalculatePrefixSum_other_jobs:
  "t \<noteq> 0 \<Longrightarrow> snd (CalculatePrefixSum B t cs fbs bc) = bc"
  by (simp add: CalculatePrefixSum_def Let_def)

lemma CalculatePrefixSum_nth:
  fixes fbs :: nat
  assumes b: "b < B" and t: "t < length cs"
  defines "tot \<equiv> \<lambda>j. (\<Sum>c\<leftarrow>cs. c ! j)"
  defines "pad \<equiv> \<lambda>j. if fbs \<noteq> 0 \<and> j < B - 1 then padded_count fbs (tot j) else tot j"
  shows "fst (CalculatePrefixSum B t cs fbs bc) ! b
           = (\<Sum>j<b. pad j) + (\<Sum>c\<leftarrow>take (Suc t) cs. c ! b)"
proof -
  define totals where "totals = fold (add_counts B) cs (replicate B 0)"
  define aligned where "aligned = (if fbs \<noteq> 0 then align_counts B fbs (totals, replicate B 0)
                     else (totals, replicate B 0))"
  define summed where "summed = running_sum B (fst aligned)"
  define mine where "mine = fold (sub_counts B) (drop (Suc t) cs) summed"
  have res: "fst (CalculatePrefixSum B t cs fbs bc)
               = (if fbs \<noteq> 0 then sub_padding B (snd aligned) mine else mine)"
    by (simp add: CalculatePrefixSum_def Let_def CalculatePrefixSum_totals CalculatePrefixSum_later
        totals_def aligned_def summed_def mine_def)
  have tl: "length totals = B" by (simp add: totals_def fold_add_counts_length)
  have tn: "totals ! j = tot j" if "j < B" for j
    using that by (simp add: totals_def tot_def fold_add_counts_nth)
  have al: "length (fst aligned) = B"
    using align_counts_nth(1)[of B totals "replicate B 0" fbs] tl by (simp add: aligned_def)
  have an: "fst aligned ! j = pad j" if "j < B" for j
    using that align_counts_nth(2)[of B totals "replicate B 0" j fbs] tl tn
    by (auto simp: aligned_def pad_def)
  have pn: "snd aligned ! j = pad j - tot j" if "j < B - 1" "fbs \<noteq> 0" for j
    using that align_counts_nth(3)[of B totals "replicate B 0" j fbs] tl tn
    by (simp add: aligned_def pad_def)
  have sl: "length summed = B" by (simp add: summed_def running_sum_length al)
  have sn: "summed ! b = (\<Sum>j\<le>b. pad j)"
    using running_sum_nth[of B "fst aligned" b] al b an by (simp add: summed_def)
  have ml: "length mine = B" by (simp add: mine_def fold_sub_counts_length sl)
  have mn: "mine ! b = (\<Sum>j\<le>b. pad j) - (\<Sum>c\<leftarrow>drop (Suc t) cs. c ! b)"
    using fold_sub_counts_nth[of B summed b "drop (Suc t) cs"] sl b sn by (simp add: mine_def)
  have split: "tot b = (\<Sum>c\<leftarrow>take (Suc t) cs. c ! b) + (\<Sum>c\<leftarrow>drop (Suc t) cs. c ! b)"
    unfolding tot_def by (metis append_take_drop_id map_append sum_list_append)
  have upto: "(\<Sum>j\<le>b. pad j) = (\<Sum>j<b. pad j) + pad b"
    by (simp add: lessThan_Suc_atMost[symmetric])
  show ?thesis
  proof (cases "fbs \<noteq> 0 \<and> b < B - 1")
    case True
    then have "fst (CalculatePrefixSum B t cs fbs bc) ! b = mine ! b - (pad b - tot b)"
      using res sub_padding_nth[of B mine b "snd aligned"] ml b pn by simp
    then show ?thesis using mn split upto by simp
  next
    case False
    then have "fst (CalculatePrefixSum B t cs fbs bc) ! b = mine ! b"
      using res sub_padding_nth[of B mine b "snd aligned"] ml b by auto
    moreover have "pad b = tot b" using False by (auto simp: pad_def)
    ultimately show ?thesis using mn split upto by simp
  qed
qed


subsection \<open>The scatter loop\<close>

lemma unat_of_nat32: "n < 2 ^ 32 \<Longrightarrow> unat (of_nat n :: uint32) = n"
  by (simp add: unat_of_nat)

lemma scatter_length: "length (scatter es pfx) = length es"
  by (induction es pfx rule: scatter.induct) (simp_all add: Let_def)

lemma bucket_count_Cons:
  "bucket_count ((b, e) # es) j = (if unat b = j then Suc (bucket_count es j) else bucket_count es j)"
  by (simp add: bucket_count_def)

lemma scatter_nth:
  assumes "\<forall>b<B. pfx ! b = of_nat (h b)" and "B \<le> length pfx"
    and "\<forall>e \<in> set es. unat (fst e) < B"
    and "\<forall>b<B. bucket_count es b \<le> h b" and "\<forall>b<B. h b < 2 ^ 32"
    and "i < length es"
  shows "scatter es pfx ! i
           = (h (unat (fst (es ! i))) - Suc (bucket_count (take i es) (unat (fst (es ! i)))),
              snd (es ! i))"
  using assms
proof (induction es arbitrary: pfx h i)
  case Nil
  then show ?case by simp
next
  case (Cons be es)
  obtain b e where be: "be = (b, e)" by (cases be)
  have bB: "unat b < B" using Cons.prems(3) be by simp
  have "bucket_count (be # es) (unat b) \<le> h (unat b)" using Cons.prems(4) bB by simp
  then have hb1: "Suc (bucket_count es (unat b)) \<le> h (unat b)"
    by (simp add: be bucket_count_Cons)
  have hb: "1 \<le> h (unat b)" "h (unat b) < 2 ^ 32"
    using hb1 Cons.prems(5) bB by simp_all
  have dst: "pfx ! unat b - 1 = (of_nat (h (unat b) - 1) :: uint32)"
    using Cons.prems(1) bB hb by (simp add: of_nat_diff)
  have udst: "unat (of_nat (h (unat b) - 1) :: uint32) = h (unat b) - 1"
    using hb by (intro unat_of_nat32) simp
  show ?case
  proof (cases i)
    case 0
    then show ?thesis using dst udst by (simp add: be Let_def bucket_count_def)
  next
    case (Suc i')
    let ?pfx = "pfx[unat b := pfx ! unat b - 1]"
    let ?h = "h(unat b := h (unat b) - 1)"
    have 1: "\<forall>b'<B. ?pfx ! b' = of_nat (?h b')"
      using Cons.prems(1,2) dst by (auto simp: nth_list_update)
    have 2: "B \<le> length ?pfx" using Cons.prems(2) by simp
    have 3: "\<forall>e \<in> set es. unat (fst e) < B" using Cons.prems(3) by simp
    have 4: "\<forall>b'<B. bucket_count es b' \<le> ?h b'"
    proof (intro allI impI)
      fix b' assume "b' < B"
      with Cons.prems(4) have "bucket_count (be # es) b' \<le> h b'" by simp
      then show "bucket_count es b' \<le> ?h b'"
        by (auto simp: be bucket_count_Cons split: if_splits)
    qed
    have 5: "\<forall>b'<B. ?h b' < 2 ^ 32" using Cons.prems(5) by (auto intro: less_imp_diff_less)
    have 6: "i' < length es" using Cons.prems(6) Suc by simp
    have cnt: "bucket_count (take i' es) (unat b) < h (unat b)"
    proof -
      have "bucket_count (take i' es) (unat b) \<le> bucket_count es (unat b)"
        unfolding bucket_count_def
        by (metis append_take_drop_id filter_append length_append le_add1)
      then show ?thesis using hb1 by simp
    qed
    from Cons.IH[OF 1 2 3 4 5 6] show ?thesis
      using Suc cnt by (auto simp: be Let_def bucket_count_Cons)
  qed
qed


subsection \<open>From words to indices\<close>

lemma sum_list_of_nat32: "(\<Sum>x\<leftarrow>xs. (of_nat (f x) :: uint32)) = of_nat (\<Sum>x\<leftarrow>xs. f x)"
  by (induction xs) simp_all

lemma published_counts_nth:
  assumes "b < B"
  shows "count_entries (map fst inp) (replicate B 0) ! b = of_nat (bucket_count inp b)"
proof -
  have "length (filter (\<lambda>b'. unat b' = b) (map fst inp)) = bucket_count inp b"
    by (simp add: bucket_count_def filter_map comp_def)
  then show ?thesis using assms count_entries_nth[of b "replicate B 0" "map fst inp"] by simp
qed

lemma published_counts_sum:
  assumes "b < B"
  shows "(\<Sum>c\<leftarrow>map (\<lambda>inp. count_entries (map fst inp) (replicate B 0)) inps. c ! b)
           = of_nat (\<Sum>inp\<leftarrow>inps. bucket_count inp b)"
proof -
  have "(\<Sum>c\<leftarrow>map (\<lambda>inp. count_entries (map fst inp) (replicate B 0)) inps. c ! b)
          = (\<Sum>inp\<leftarrow>inps. (of_nat (bucket_count inp b) :: uint32))"
    using assms by (simp add: comp_def published_counts_nth)
  then show ?thesis by (simp only: sum_list_of_nat32)
qed

lemma bucket_total_le_padded: "bucket_total inputs b \<le> bucket_padded B fbs inputs b"
proof (cases "fbs \<noteq> 0 \<and> b < B - 1")
  case True
  then have "0 < fbs" by simp
  from RoundUpToNextBoundary_multiple[OF this, of "bucket_total inputs b * 4"]
  have "bucket_total inputs b * 4 \<le> RoundUpToNextBoundary (bucket_total inputs b * 4) fbs" by simp
  then have "bucket_total inputs b \<le> RoundUpToNextBoundary (bucket_total inputs b * 4) fbs div 4"
    by simp
  then show ?thesis using True by (simp add: bucket_padded_def)
next
  case False
  then show ?thesis by (auto simp: bucket_padded_def)
qed

lemma bucket_start_Suc:
  "bucket_start B fbs inputs (Suc b) = bucket_start B fbs inputs b + bucket_padded B fbs inputs b"
  by (simp add: bucket_start_def)

lemma bucket_start_mono:
  "b \<le> b' \<Longrightarrow> bucket_start B fbs inputs b \<le> bucket_start B fbs inputs b'"
  unfolding bucket_start_def by (intro sum_mono2) auto

lemma window_start_Suc:
  "t < length inputs \<Longrightarrow>
   window_start B fbs inputs (Suc t) b = window_start B fbs inputs t b + bucket_count (inputs ! t) b"
  by (simp add: window_start_def take_Suc_conv_app_nth)

lemma window_start_mono:
  "t \<le> t' \<Longrightarrow> window_start B fbs inputs t b \<le> window_start B fbs inputs t' b"
proof -
  assume "t \<le> t'"
  then have "take t' inputs = take t inputs @ drop t (take t' inputs)"
    by (metis append_take_drop_id min.absorb1 take_take)
  then have "(\<Sum>inp\<leftarrow>take t' inputs. bucket_count inp b)
               = (\<Sum>inp\<leftarrow>take t inputs. bucket_count inp b)
                 + (\<Sum>inp\<leftarrow>drop t (take t' inputs). bucket_count inp b)"
    by (metis map_append sum_list_append)
  then show ?thesis by (simp add: window_start_def)
qed

lemma window_start_all:
  "length inputs \<le> t \<Longrightarrow>
   window_start B fbs inputs t b = bucket_start B fbs inputs b + bucket_total inputs b"
  by (simp add: window_start_def bucket_total_def)

lemma window_within_bucket:
  "window_start B fbs inputs t b \<le> bucket_start B fbs inputs (Suc b)"
proof -
  have "window_start B fbs inputs t b \<le> window_start B fbs inputs (max t (length inputs)) b"
    by (rule window_start_mono) simp
  also have "\<dots> = bucket_start B fbs inputs b + bucket_total inputs b"
    by (rule window_start_all) simp
  also have "\<dots> \<le> bucket_start B fbs inputs (Suc b)"
    using bucket_total_le_padded[of inputs b B fbs] by (simp add: bucket_start_Suc)
  finally show ?thesis .
qed

lemma prefix_sum_is_window_end:
  fixes inputs :: "(byte \<times> 'a) list list"
  assumes t: "t < length inputs" and b: "b < B"
    and fit: "bucket_start B fbs inputs B < 2 ^ 32"
  shows "fst (CalculatePrefixSum B t
                (map (\<lambda>inp. count_entries (map fst inp) (replicate B 0)) inputs) fbs bc) ! b
           = of_nat (window_start B fbs inputs (Suc t) b)"
proof -
  let ?cs = "map (\<lambda>inp. count_entries (map fst inp) (replicate B 0)) inputs"
  have small: "bucket_padded B fbs inputs j < 2 ^ 32" if "j < B" for j
  proof -
    have "bucket_padded B fbs inputs j \<le> bucket_start B fbs inputs (Suc j)"
      by (simp add: bucket_start_Suc)
    also have "\<dots> \<le> bucket_start B fbs inputs B" using that by (intro bucket_start_mono) simp
    finally show ?thesis using fit by simp
  qed
  have tot: "(\<Sum>c\<leftarrow>?cs. c ! j) = of_nat (bucket_total inputs j)" if "j < B" for j
    using published_counts_sum[OF that, of inputs] by (simp add: bucket_total_def)
  have pad: "(if fbs \<noteq> 0 \<and> j < B - 1 then padded_count fbs (\<Sum>c\<leftarrow>?cs. c ! j)
              else (\<Sum>c\<leftarrow>?cs. c ! j)) = of_nat (bucket_padded B fbs inputs j)" if "j < B" for j
  proof -
    have "bucket_total inputs j < 2 ^ 32"
      using bucket_total_le_padded[of inputs j B fbs] small[OF that] by simp
    then have "unat (of_nat (bucket_total inputs j) :: uint32) = bucket_total inputs j"
      by (rule unat_of_nat32)
    then show ?thesis using tot[OF that] by (simp add: padded_count_def bucket_padded_def)
  qed
  have "fst (CalculatePrefixSum B t ?cs fbs bc) ! b
          = (\<Sum>j<b. (of_nat (bucket_padded B fbs inputs j) :: uint32))
            + (\<Sum>c\<leftarrow>take (Suc t) ?cs. c ! b)"
  proof -
    have "(\<Sum>j<b. if fbs \<noteq> 0 \<and> j < B - 1 then padded_count fbs (\<Sum>c\<leftarrow>?cs. c ! j)
              else (\<Sum>c\<leftarrow>?cs. c ! j)) = (\<Sum>j<b. (of_nat (bucket_padded B fbs inputs j) :: uint32))"
      using b by (intro sum.cong refl pad) simp
    then show ?thesis using CalculatePrefixSum_nth[OF b, of t ?cs fbs bc] t by simp
  qed
  also have "(\<Sum>c\<leftarrow>take (Suc t) ?cs. c ! b)
               = of_nat (\<Sum>inp\<leftarrow>take (Suc t) inputs. bucket_count inp b)"
    using published_counts_sum[OF b, of "take (Suc t) inputs"] by (simp add: take_map)
  finally show ?thesis by (simp add: window_start_def bucket_start_def)
qed


subsection \<open>Destinations of one job\<close>

lemma CalculatePrefixSum_length:
  "length (fst (CalculatePrefixSum B t cs fbs bc)) = B"
proof -
  have tl: "length (fold (add_counts B) cs (replicate B 0)) = B"
    by (simp add: fold_add_counts_length)
  have al: "length (fst (align_counts B fbs (fold (add_counts B) cs (replicate B 0), replicate B 0))) = B"
    using align_counts_nth(1)[of B "fold (add_counts B) cs (replicate B 0)" "replicate B 0" fbs] tl
    by simp
  have sp: "length (sub_padding B pad p) = length p" for pad p
    unfolding sub_padding_def
    using pointwise_loop_length[of "\<lambda>i p. p ! i - pad ! i" "[0 ..< B - 1]" p] .
  show ?thesis
    by (simp add: CalculatePrefixSum_def Let_def CalculatePrefixSum_totals CalculatePrefixSum_later
        sp fold_sub_counts_length running_sum_length tl al)
qed

lemma rank_less_count:
  assumes "i < length es" and "unat (fst (es ! i)) = b"
  shows "bucket_count (take i es) b < bucket_count es b"
proof -
  have "es = take i es @ es ! i # drop (Suc i) es" using assms(1) by (rule id_take_nth_drop)
  then have "bucket_count es b = bucket_count (take i es @ es ! i # drop (Suc i) es) b" by simp
  also have "\<dots> = bucket_count (take i es) b + Suc (bucket_count (drop (Suc i) es) b)"
    using assms(2) by (simp add: bucket_count_def)
  finally show ?thesis by simp
qed

lemma rank_strict_mono:
  assumes "i < i'" and "i' < length es" and "unat (fst (es ! i)) = b"
  shows "bucket_count (take i es) b < bucket_count (take i' es) b"
proof -
  have "bucket_count (take i (take i' es)) b < bucket_count (take i' es) b"
    using assms by (intro rank_less_count) simp_all
  then show ?thesis using assms(1) by (simp add: min_def)
qed

lemma job_destination:
  fixes inputs :: "(byte \<times> 'a) list list"
  assumes t: "t < length inputs"
    and range: "\<forall>inp \<in> set inputs. \<forall>e \<in> set inp. unat (fst e) < B"
    and fit: "bucket_start B fbs inputs B < 2 ^ 32"
    and i: "i < length (inputs ! t)"
  shows "fst (DistributeIntoBuckets B t inputs fbs bc) ! i
           = (window_start B fbs inputs (Suc t) (unat (fst (inputs ! t ! i)))
                - Suc (bucket_count (take i (inputs ! t)) (unat (fst (inputs ! t ! i)))),
              snd (inputs ! t ! i))"
proof -
  let ?cs = "map (\<lambda>inp. count_entries (map fst inp) (replicate B 0)) inputs"
  let ?pfx = "fst (CalculatePrefixSum B t ?cs fbs bc)"
  let ?h = "window_start B fbs inputs (Suc t)"
  have 1: "\<forall>b<B. ?pfx ! b = of_nat (?h b)"
    using prefix_sum_is_window_end[OF t _ fit] by blast
  have 2: "B \<le> length ?pfx" by (simp add: CalculatePrefixSum_length)
  have 3: "\<forall>e \<in> set (inputs ! t). unat (fst e) < B" using range t nth_mem by blast
  have 4: "\<forall>b<B. bucket_count (inputs ! t) b \<le> ?h b" using t by (simp add: window_start_Suc)
  have 5: "\<forall>b<B. ?h b < 2 ^ 32"
  proof (intro allI impI)
    fix b assume b: "b < B"
    have "?h b \<le> bucket_start B fbs inputs (Suc b)" by (rule window_within_bucket)
    also have "\<dots> \<le> bucket_start B fbs inputs B" using b by (intro bucket_start_mono) simp
    finally show "?h b < 2 ^ 32" using fit by simp
  qed
  from scatter_nth[OF 1 2 3 4 5 i] show ?thesis by (simp add: DistributeIntoBuckets_def Let_def)
qed

lemma job_stores_length:
  "length (fst (DistributeIntoBuckets B t inputs fbs bc)) = length (inputs ! t)"
  by (simp add: DistributeIntoBuckets_def Let_def scatter_length)


lemma job_destination_in_window:
  fixes inputs :: "(byte \<times> 'a) list list"
  assumes t: "t < length inputs"
    and range: "\<forall>inp \<in> set inputs. \<forall>e \<in> set inp. unat (fst e) < B"
    and fit: "bucket_start B fbs inputs B < 2 ^ 32"
    and i: "i < length (inputs ! t)"
    and b: "unat (fst (inputs ! t ! i)) = b"
  shows "fst (fst (DistributeIntoBuckets B t inputs fbs bc) ! i)
           = window_start B fbs inputs t b + bucket_count (inputs ! t) b
             - Suc (bucket_count (take i (inputs ! t)) b)"
    and "window_start B fbs inputs t b \<le> fst (fst (DistributeIntoBuckets B t inputs fbs bc) ! i)"
    and "fst (fst (DistributeIntoBuckets B t inputs fbs bc) ! i)
           < window_start B fbs inputs t b + bucket_count (inputs ! t) b"
proof -
  have r: "bucket_count (take i (inputs ! t)) b < bucket_count (inputs ! t) b"
    using i b by (rule rank_less_count)
  show eq: "fst (fst (DistributeIntoBuckets B t inputs fbs bc) ! i)
           = window_start B fbs inputs t b + bucket_count (inputs ! t) b
             - Suc (bucket_count (take i (inputs ! t)) b)"
    using job_destination[OF t range fit i, of bc] b t by (simp add: window_start_Suc)
  show "window_start B fbs inputs t b \<le> fst (fst (DistributeIntoBuckets B t inputs fbs bc) ! i)"
    unfolding eq using r by simp
  show "fst (fst (DistributeIntoBuckets B t inputs fbs bc) ! i)
           < window_start B fbs inputs t b + bucket_count (inputs ! t) b"
    unfolding eq using r by simp
qed

lemma destinations_distinct:
  fixes inputs :: "(byte \<times> 'a) list list"
  assumes range: "\<forall>inp \<in> set inputs. \<forall>e \<in> set inp. unat (fst e) < B"
    and fit: "bucket_start B fbs inputs B < 2 ^ 32"
    and t: "t < length inputs" and i: "i < length (inputs ! t)"
    and t': "t' < length inputs" and i': "i' < length (inputs ! t')"
    and eq: "fst (fst (DistributeIntoBuckets B t inputs fbs bc) ! i)
               = fst (fst (DistributeIntoBuckets B t' inputs fbs bc) ! i')"
  shows "t = t' \<and> i = i'"
proof -
  define b where "b = unat (fst (inputs ! t ! i))"
  define b' where "b' = unat (fst (inputs ! t' ! i'))"
  define d where "d = fst (fst (DistributeIntoBuckets B t inputs fbs bc) ! i)"
  have d: "fst (fst (DistributeIntoBuckets B t inputs fbs bc) ! i) = d" by (simp add: d_def)
  have d': "fst (fst (DistributeIntoBuckets B t' inputs fbs bc) ! i') = d"
    using eq by (simp add: d_def)
  note w = job_destination_in_window[OF t range fit i b_def[symmetric], of bc, unfolded d]
  note w' = job_destination_in_window[OF t' range fit i' b'_def[symmetric], of bc, unfolded d']
  have upper: "window_start B fbs inputs s c + bucket_count (inputs ! s) c
                 \<le> bucket_start B fbs inputs (Suc c)" if "s < length inputs" for s c
    using window_within_bucket[of B fbs inputs "Suc s" c] that by (simp add: window_start_Suc)
  have lower: "bucket_start B fbs inputs c \<le> window_start B fbs inputs s c" for s c
    by (simp add: window_start_def)
  have bb: "b = b'"
  proof (rule ccontr)
    assume "b \<noteq> b'"
    then consider "b < b'" | "b' < b" by linarith
    then show False
    proof cases
      case 1
      have "d < bucket_start B fbs inputs (Suc b)" using w(3) upper[OF t, of b] by simp
      also have "\<dots> \<le> bucket_start B fbs inputs b'" using 1 by (intro bucket_start_mono) simp
      also have "\<dots> \<le> d" using lower[of b' t'] w'(2) by simp
      finally show False by simp
    next
      case 2
      have "d < bucket_start B fbs inputs (Suc b')" using w'(3) upper[OF t', of b'] by simp
      also have "\<dots> \<le> bucket_start B fbs inputs b" using 2 by (intro bucket_start_mono) simp
      also have "\<dots> \<le> d" using lower[of b t] w(2) by simp
      finally show False by simp
    qed
  qed
  have tt: "t = t'"
  proof (rule ccontr)
    assume "t \<noteq> t'"
    then consider "t < t'" | "t' < t" by linarith
    then show False
    proof cases
      case 1
      have "d < window_start B fbs inputs (Suc t) b" using w(3) t by (simp add: window_start_Suc)
      also have "\<dots> \<le> window_start B fbs inputs t' b" using 1 by (intro window_start_mono) simp
      also have "\<dots> \<le> d" using w'(2) bb by simp
      finally show False by simp
    next
      case 2
      have "d < window_start B fbs inputs (Suc t') b'" using w'(3) t' by (simp add: window_start_Suc)
      also have "\<dots> \<le> window_start B fbs inputs t b'" using 2 by (intro window_start_mono) simp
      also have "\<dots> \<le> d" using w(2) bb by simp
      finally show False by simp
    qed
  qed
  have ii: "i = i'"
  proof (rule ccontr)
    assume "i \<noteq> i'"
    then consider "i < i'" | "i' < i" by linarith
    then show False
    proof cases
      case 1
      have "bucket_count (take i (inputs ! t)) b < bucket_count (take i' (inputs ! t)) b"
        using 1 i' tt b_def by (intro rank_strict_mono) simp_all
      moreover have "bucket_count (take i' (inputs ! t)) b < bucket_count (inputs ! t) b"
        using i' tt bb b'_def by (intro rank_less_count) simp_all
      ultimately show False using w(1) w'(1) tt bb by simp
    next
      case 2
      have "bucket_count (take i' (inputs ! t)) b < bucket_count (take i (inputs ! t)) b"
        using 2 i tt bb b'_def by (intro rank_strict_mono) simp_all
      moreover have "bucket_count (take i (inputs ! t)) b < bucket_count (inputs ! t) b"
        using i b_def by (intro rank_less_count) simp_all
      ultimately show False using w(1) w'(1) tt bb by simp
    qed
  qed
  show ?thesis using tt ii by simp
qed


lemma bucket_dsts_image:
  assumes "length stores = length inp"
  shows "bucket_dsts inp stores b
           = (\<lambda>i. fst (stores ! i)) ` {i. i < length inp \<and> unat (fst (inp ! i)) = b}"
proof -
  have "bucket_dsts inp stores b
          = (\<lambda>(s, e). fst s) ` {z \<in> set (zip stores inp). unat (fst (snd z)) = b}"
    by (auto simp: bucket_dsts_def case_prod_beta)
  also have "\<dots> = (\<lambda>i. fst (stores ! i)) ` {i. i < length inp \<and> unat (fst (inp ! i)) = b}"
    using assms by (auto simp: set_zip image_iff)
  finally show ?thesis .
qed

lemma bucket_dsts_window:
  fixes inputs :: "(byte \<times> 'a) list list"
  assumes range: "\<forall>inp \<in> set inputs. \<forall>e \<in> set inp. unat (fst e) < B"
    and fit: "bucket_start B fbs inputs B < 2 ^ 32"
    and t: "t < length inputs"
  shows "bucket_dsts (inputs ! t) (fst (DistributeIntoBuckets B t inputs fbs bc)) b
           = {window_start B fbs inputs t b
              ..< window_start B fbs inputs t b + bucket_count (inputs ! t) b}"
proof -
  let ?st = "fst (DistributeIntoBuckets B t inputs fbs bc)"
  let ?I = "{i. i < length (inputs ! t) \<and> unat (fst (inputs ! t ! i)) = b}"
  let ?f = "\<lambda>i. fst (?st ! i)"
  let ?W = "{window_start B fbs inputs t b
              ..< window_start B fbs inputs t b + bucket_count (inputs ! t) b}"
  have img: "bucket_dsts (inputs ! t) ?st b = ?f ` ?I"
    by (rule bucket_dsts_image) (rule job_stores_length)
  have sub: "?f ` ?I \<subseteq> ?W"
    using job_destination_in_window(2,3)[OF t range fit, of _ b bc] by auto
  have inj: "inj_on ?f ?I"
    using destinations_distinct[OF range fit t _ t, of _ _ bc] by (auto simp: inj_on_def)
  have "card (?f ` ?I) = card ?I" using inj by (rule card_image)
  also have "\<dots> = bucket_count (inputs ! t) b"
    by (simp add: bucket_count_def length_filter_conv_card)
  also have "\<dots> = card ?W" by simp
  finally have "?f ` ?I = ?W" using sub by (intro card_subset_eq) simp_all
  then show ?thesis using img by simp
qed

lemma windows_fill_bucket:
  "n \<le> length inputs \<Longrightarrow>
   (\<Union>t<n. {window_start B fbs inputs t b
             ..< window_start B fbs inputs t b + bucket_count (inputs ! t) b})
     = {bucket_start B fbs inputs b ..< window_start B fbs inputs n b}"
proof (induction n)
  case 0
  then show ?case by (simp add: window_start_def)
next
  case (Suc n)
  have n: "n < length inputs" using Suc.prems by simp
  have lo: "bucket_start B fbs inputs b \<le> window_start B fbs inputs n b"
    by (simp add: window_start_def)
  have "(\<Union>t<Suc n. {window_start B fbs inputs t b
             ..< window_start B fbs inputs t b + bucket_count (inputs ! t) b})
          = {bucket_start B fbs inputs b ..< window_start B fbs inputs n b}
            \<union> {window_start B fbs inputs n b ..< window_start B fbs inputs (Suc n) b}"
    using Suc.IH n by (simp add: lessThan_Suc Un_commute window_start_Suc)
  also have "\<dots> = {bucket_start B fbs inputs b ..< window_start B fbs inputs (Suc n) b}"
    using lo window_start_mono[of n "Suc n" B fbs inputs b] by (intro ivl_disj_un_two(3)) simp_all
  finally show ?case .
qed

lemma bucket_start_aligned:
  assumes "fbs \<noteq> 0" and "4 dvd fbs \<or> fbs dvd 4" and "b < B"
  shows "fbs dvd 4 * bucket_start B fbs inputs b"
proof (cases "fbs dvd 4")
  case True
  then show ?thesis by simp
next
  case False
  with assms(2) have four: "4 dvd fbs" by simp
  have "fbs dvd 4 * bucket_padded B fbs inputs j" if "j < b" for j
  proof -
    let ?r = "RoundUpToNextBoundary (bucket_total inputs j * 4) fbs"
    have "0 < fbs" using assms(1) by simp
    from RoundUpToNextBoundary_multiple[OF this, of "bucket_total inputs j * 4"]
    have r: "fbs dvd ?r" by simp
    then have "4 dvd ?r" using four by (rule dvd_trans[rotated])
    then have "4 * (?r div 4) = ?r" by simp
    moreover have "j < B - 1" using that assms(3) by simp
    ultimately show ?thesis using r assms(1) by (simp add: bucket_padded_def)
  qed
  then have "fbs dvd (\<Sum>j<b. 4 * bucket_padded B fbs inputs j)" by (intro dvd_sum) simp
  then show ?thesis by (simp add: bucket_start_def sum_distrib_left)
qed


text \<open>
  C1: \<open>T \<ge> 1\<close> jobs run \<open>DistributeIntoBuckets\<close> on their inputs, every bucket
  byte is below \<open>B\<close>, the padded bucket totals add up to less than \<open>2^32\<close> (so
  that no 32-bit counter wraps) and the file block size is below \<open>2^31\<close> (it is
  cast to \<open>int\<close>). Then every job stores each of its entries once, and its
  entries of bucket \<open>b\<close> go to exactly the indices of its window, which starts
  after the windows of the jobs before it; no two entries of any jobs get the
  same index; the entries of bucket \<open>b\<close> of all jobs fill the region that
  starts at the bucket's start and is as long as the bucket's total, and the
  region ends before the next bucket starts. The start of a bucket is the sum
  of the padded totals of the buckets before it, so the padding is not part
  of any start; for a block size that divides 4 or is a multiple of 4 every
  start is a multiple of the block size in bytes.
\<close>

theorem DistributeIntoBuckets_windows:
  fixes inputs :: "(byte \<times> 'a) list list" and bc :: "uint32 list"
  assumes "inputs \<noteq> []"
    and "\<forall>inp \<in> set inputs. \<forall>e \<in> set inp. unat (fst e) < B"
    and "bucket_start B fbs inputs B < 2 ^ 32"
    and "fbs < 2 ^ 31"
  defines "stores \<equiv> \<lambda>t. fst (DistributeIntoBuckets B t inputs fbs bc)"
  shows "(\<forall>t<length inputs.
            map snd (stores t) = map snd (inputs ! t)
          \<and> (\<forall>b<B. bucket_dsts (inputs ! t) (stores t) b
                     = {window_start B fbs inputs t b
                        ..< window_start B fbs inputs t b + bucket_count (inputs ! t) b}))
       \<and> (\<forall>t<length inputs. \<forall>t'<length inputs.
            \<forall>i<length (inputs ! t). \<forall>i'<length (inputs ! t').
              fst (stores t ! i) = fst (stores t' ! i') \<longrightarrow> t = t' \<and> i = i')
       \<and> (\<forall>b<B.
            (\<Union>t<length inputs. bucket_dsts (inputs ! t) (stores t) b)
               = {bucket_start B fbs inputs b ..< bucket_start B fbs inputs b + bucket_total inputs b}
          \<and> bucket_start B fbs inputs b + bucket_total inputs b \<le> bucket_start B fbs inputs (Suc b)
          \<and> window_start B fbs inputs 0 b = bucket_start B fbs inputs b
          \<and> (fbs \<noteq> 0 \<and> (4 dvd fbs \<or> fbs dvd 4) \<longrightarrow> fbs dvd 4 * bucket_start B fbs inputs b))"
proof -
  note range = assms(2) and fit = assms(3)
  have A: "map snd (stores t) = map snd (inputs ! t)" if "t < length inputs" for t
    unfolding stores_def
    by (rule nth_equalityI)
       (simp_all add: job_stores_length job_destination[OF that range fit])
  have Bw: "bucket_dsts (inputs ! t) (stores t) b
                     = {window_start B fbs inputs t b
                        ..< window_start B fbs inputs t b + bucket_count (inputs ! t) b}"
    if "t < length inputs" for t b
    unfolding stores_def using range fit that by (rule bucket_dsts_window)
  have C: "t = t' \<and> i = i'"
    if "t < length inputs" "t' < length inputs" "i < length (inputs ! t)" "i' < length (inputs ! t')"
       "fst (stores t ! i) = fst (stores t' ! i')" for t t' i i'
    using destinations_distinct[OF range fit that(1,3,2,4)] that(5) unfolding stores_def by blast
  have D: "(\<Union>t<length inputs. bucket_dsts (inputs ! t) (stores t) b)
               = {bucket_start B fbs inputs b ..< bucket_start B fbs inputs b + bucket_total inputs b}"
    for b
  proof -
    have "(\<Union>t<length inputs. bucket_dsts (inputs ! t) (stores t) b)
            = (\<Union>t<length inputs. {window_start B fbs inputs t b
                        ..< window_start B fbs inputs t b + bucket_count (inputs ! t) b})"
      using Bw by simp
    also have "\<dots> = {bucket_start B fbs inputs b ..< window_start B fbs inputs (length inputs) b}"
      by (rule windows_fill_bucket) simp
    finally show ?thesis by (simp add: window_start_all)
  qed
  have E: "bucket_start B fbs inputs b + bucket_total inputs b \<le> bucket_start B fbs inputs (Suc b)"
    for b
    using bucket_total_le_padded[of inputs b B fbs] by (simp add: bucket_start_Suc)
  have F: "window_start B fbs inputs 0 b = bucket_start B fbs inputs b" for b
    by (simp add: window_start_def)
  have G: "fbs dvd 4 * bucket_start B fbs inputs b"
    if "fbs \<noteq> 0 \<and> (4 dvd fbs \<or> fbs dvd 4)" "b < B" for b
    using that by (intro bucket_start_aligned) simp_all
  show ?thesis using A Bw C D E F G by blast
qed


theorem DistributeIntoBuckets_windows_witness:
  "(\<Union>t<2. bucket_dsts ([[(1, 10 :: nat), (0, 11), (1, 12)], [(3, 13), (1, 14), (0, 15)]] ! t)
       (fst (DistributeIntoBuckets 4 t
               [[(1, 10 :: nat), (0, 11), (1, 12)], [(3, 13), (1, 14), (0, 15)]] 8 [9, 9, 9, 9])) 1)
     = {2 ..< 5}"
proof -
  let ?inputs = "[[(1 :: byte, 10 :: nat), (0, 11), (1, 12)], [(3, 13), (1, 14), (0, 15)]]"
  have 1: "?inputs \<noteq> []" by simp
  have 2: "\<forall>inp \<in> set ?inputs. \<forall>e \<in> set inp. unat (fst e) < 4" by simp
  have "bucket_start 4 8 ?inputs 4 = 7" by code_simp
  then have 3: "bucket_start 4 8 ?inputs 4 < 2 ^ 32" by simp
  have 4: "(8 :: nat) < 2 ^ 31" by simp
  have 5: "bucket_start 4 8 ?inputs 1 = 2" by code_simp
  have 6: "bucket_total ?inputs 1 = 3" by code_simp
  have 7: "(1 :: nat) < 4" by simp
  have 8: "length ?inputs = 2" by simp
  note r = DistributeIntoBuckets_windows[OF 1 2 3 4, of "[9, 9, 9, 9]", THEN conjunct2,
      THEN conjunct2, rule_format, OF 7, THEN conjunct1]
  show ?thesis using r unfolding 5 6 8 by simp
qed

subsection \<open>The totals of the control thread\<close>

lemma sum_bucket_count:
  "\<forall>e \<in> set inp. unat (fst e) < B \<Longrightarrow> (\<Sum>b<B. bucket_count inp b) = length inp"
proof (induction inp)
  case Nil
  then show ?case by (simp add: bucket_count_def)
next
  case (Cons e inp)
  obtain b0 x where e: "e = (b0, x)" by (cases e)
  have b0: "unat b0 < B" using Cons.prems e by simp
  have "(\<Sum>b<B. bucket_count (e # inp) b)
          = (\<Sum>b<B. (if unat b0 = b then 1 else 0) + bucket_count inp b)"
    by (intro sum.cong refl) (simp add: e bucket_count_Cons)
  also have "\<dots> = (\<Sum>b<B. if unat b0 = b then 1 else 0) + (\<Sum>b<B. bucket_count inp b)"
    by (simp add: sum.distrib)
  also have "(\<Sum>b<B. if unat b0 = b then 1 else 0) = (1::nat)" using b0 by simp
  finally show ?case using Cons by simp
qed

lemma sum_bucket_total:
  "\<forall>inp \<in> set inputs. \<forall>e \<in> set inp. unat (fst e) < B \<Longrightarrow>
   (\<Sum>b<B. bucket_total inputs b) = (\<Sum>inp\<leftarrow>inputs. length inp)"
proof (induction inputs)
  case Nil
  then show ?case by (simp add: bucket_total_def)
next
  case (Cons inp inputs)
  have "(\<Sum>b<B. bucket_total (inp # inputs) b)
          = (\<Sum>b<B. bucket_count inp b) + (\<Sum>b<B. bucket_total inputs b)"
    by (simp add: bucket_total_def sum.distrib)
  then show ?case using Cons sum_bucket_count[of inp B] by simp
qed

lemma bucket_count_le_length: "bucket_count inp b \<le> length inp"
  by (simp add: bucket_count_def)

lemma bucket_total_le_entries: "bucket_total inputs b \<le> (\<Sum>inp\<leftarrow>inputs. length inp)"
  unfolding bucket_total_def by (induction inputs) (simp_all add: add_mono bucket_count_le_length)

lemma length_le_entries: "inp \<in> set inputs \<Longrightarrow> length inp \<le> (\<Sum>inp\<leftarrow>inputs. length inp)"
  by (induction inputs) auto

text \<open>
  C4: with \<open>T \<ge> 1\<close> jobs, every bucket byte below \<open>B\<close> and fewer than
  \<open>2^32\<close> entries in all, the counts that the control thread (job 0) records
  are, bucket by bucket, the sum of the counts the jobs published, as 32-bit
  words and as numbers, which is the number of entries of that bucket; and
  the recorded counts of all buckets add up to the number of input entries.
\<close>

theorem control_thread_bucket_counts:
  fixes inputs :: "(byte \<times> 'a) list list"
  assumes "inputs \<noteq> []"
    and "\<forall>inp \<in> set inputs. \<forall>e \<in> set inp. unat (fst e) < B"
    and "(\<Sum>inp\<leftarrow>inputs. length inp) < 2 ^ 32"
  shows "length (snd (DistributeIntoBuckets B 0 inputs fbs bc)) = B
       \<and> (\<forall>b<B.
             snd (DistributeIntoBuckets B 0 inputs fbs bc) ! b
               = (\<Sum>inp\<leftarrow>inputs. count_entries (map fst inp) (replicate B 0) ! b)
           \<and> unat (snd (DistributeIntoBuckets B 0 inputs fbs bc) ! b)
               = (\<Sum>inp\<leftarrow>inputs. unat (count_entries (map fst inp) (replicate B 0) ! b))
           \<and> unat (snd (DistributeIntoBuckets B 0 inputs fbs bc) ! b) = bucket_total inputs b)
       \<and> (\<Sum>b<B. unat (snd (DistributeIntoBuckets B 0 inputs fbs bc) ! b))
             = (\<Sum>inp\<leftarrow>inputs. length inp)"
proof -
  let ?cs = "map (\<lambda>inp. count_entries (map fst inp) (replicate B 0)) inputs"
  let ?bc = "snd (DistributeIntoBuckets B 0 inputs fbs bc)"
  have bc: "?bc = snd (CalculatePrefixSum B 0 ?cs fbs bc)"
    by (simp add: DistributeIntoBuckets_def Let_def)
  have len: "length ?bc = B"
    unfolding bc by (rule CalculatePrefixSum_bucketCounts_length)
  have word: "?bc ! b = (\<Sum>inp\<leftarrow>inputs. count_entries (map fst inp) (replicate B 0) ! b)"
    if "b < B" for b
    unfolding bc using CalculatePrefixSum_bucketCounts[OF that, of ?cs fbs bc]
    by (simp add: comp_def)
  have one: "unat (count_entries (map fst inp) (replicate B 0) ! b) = bucket_count inp b"
    if "b < B" "inp \<in> set inputs" for b inp
  proof -
    have "bucket_count inp b < 2 ^ 32"
      using bucket_count_le_length[of inp b] length_le_entries[OF that(2)] assms(3) by simp
    then show ?thesis using published_counts_nth[OF that(1), of inp] by (simp add: unat_of_nat32)
  qed
  have total: "unat (?bc ! b) = bucket_total inputs b" if "b < B" for b
  proof -
    have "?bc ! b = of_nat (bucket_total inputs b)"
      using word[OF that] published_counts_sum[OF that, of inputs]
      by (simp add: comp_def bucket_total_def)
    moreover have "bucket_total inputs b < 2 ^ 32"
      using bucket_total_le_entries[of inputs b] assms(3) by simp
    ultimately show ?thesis by (simp add: unat_of_nat32)
  qed
  have parts: "unat (?bc ! b)
                 = (\<Sum>inp\<leftarrow>inputs. unat (count_entries (map fst inp) (replicate B 0) ! b))"
    if "b < B" for b
  proof -
    have "(\<Sum>inp\<leftarrow>inputs. unat (count_entries (map fst inp) (replicate B 0) ! b))
            = (\<Sum>inp\<leftarrow>inputs. bucket_count inp b)"
      using one[OF that] by (intro arg_cong[of _ _ sum_list] map_cong refl) simp
    then show ?thesis using total[OF that] by (simp add: bucket_total_def)
  qed
  have "(\<Sum>b<B. unat (?bc ! b)) = (\<Sum>b<B. bucket_total inputs b)"
    using total by (intro sum.cong refl) simp
  then have all: "(\<Sum>b<B. unat (?bc ! b)) = (\<Sum>inp\<leftarrow>inputs. length inp)"
    using sum_bucket_total[OF assms(2)] by simp
  show ?thesis using len word parts total all by blast
qed

theorem control_thread_bucket_counts_witness:
  "(\<Sum>b<4. unat (snd (DistributeIntoBuckets 4 0
       [[(1, 10 :: nat), (0, 11), (1, 12)], [(3, 13), (1, 14), (0, 15)]] 8 [9, 9, 9, 9]) ! b)) = 6"
proof -
  let ?inputs = "[[(1 :: byte, 10 :: nat), (0, 11), (1, 12)], [(3, 13), (1, 14), (0, 15)]]"
  have 1: "?inputs \<noteq> []" by simp
  have 2: "\<forall>inp \<in> set ?inputs. \<forall>e \<in> set inp. unat (fst e) < 4" by simp
  have 3: "(\<Sum>inp\<leftarrow>?inputs. length inp) < 2 ^ 32" by simp
  note r = control_thread_bucket_counts[OF 1 2 3, of 8 "[9, 9, 9, 9]", THEN conjunct2, THEN conjunct2]
  have "(\<Sum>inp\<leftarrow>?inputs. length inp) = 6" by simp
  with r show ?thesis by (simp only:)
qed

section \<open>Fx: the value and the bucket of an output entry\<close>

subsection \<open>Bytes and big-endian words\<close>










subsection \<open>The hashed message is the packed bit field\<close>

















subsection \<open>The loop\<close>








section \<open>Fx: the output metadata of input multiplier 3 and output multiplier 2\<close>

lemma fx_meta_out_3_2:
  "drop (Suc 0) (metaOutA (fx_meta_out 3 2 i l0 r0 output out)) = drop (Suc 0) (metaOutA out)"
  by (simp add: fx_meta_out_def Let_def)

lemma fx_step_3_2:
  "drop (Suc 0) (metaOutA (snd (fx_step tableId 3 2 blake3 bucket fin i st)))
     = drop (Suc 0) (metaOutA (snd st))"
  by (simp add: fx_step_def Let_def fx_meta_out_3_2)

text \<open>
  C3 (where the code departs from it). With input multiplier 3 and output
  multiplier 2, whatever the hash and the inputs, the loop leaves every
  element of \<open>metaOutA\<close> after the first as it was: the metadata of every
  pair is stored at index 0, and no pair \<open>i > 0\<close> has its metadata at index
  \<open>i\<close>.
\<close>

theorem ComputeFxForTable_in_3_out_2_stores_at_index_0_only:
  "drop 1 (metaOutA (ComputeFxForTable tableId 3 2 blake3 bucket entryCnt fin input out))
     = drop 1 (metaOutA out)"
  unfolding ComputeFxForTable_def
  by (induction entryCnt) (simp_all add: fx_step_3_2)

end
